theory Spec2Isabelle
  imports Complex_Main "HOL-Library.Word"
begin

section \<open>The Merkle tree trace builder of the AVM (merkle\_tree.cpp)\<close>

text \<open>
  The builder records every Merkle membership check and leaf update in a log
  (\<open>merkle_check_trace\<close>) and \<open>finalize\<close> expands the log into rows of the main trace,
  one row per tree level.

  Machine integers: \<open>uint32_t\<close> is \<open>32 word\<close> and \<open>size_t\<close> is \<open>64 word\<close> (an LP64
  target). Loop counters are naturals that range over \<open>[0..<n]\<close> for the loop bound \<open>n\<close>
  and are converted to the word type the source computes with at every use:
  \<open>uint32_t i\<close> in \<open>compute_root_from_path\<close>, \<open>size_t i\<close> in \<open>finalize\<close>. A
  \<open>std::vector\<close> is a list; \<open>static_cast<uint32_t>(path.size())\<close> is the length of the
  list as a 32-bit word.

  The field \<open>FF\<close> is declared outside this file; it is the type parameter \<open>'f::field\<close>.
  The arguments \<open>clk\<close>, \<open>leaf_value\<close>, \<open>leaf_index\<close>, \<open>path\<close> and \<open>root\<close> of the
  source are written \<open>c\<close>, \<open>lv\<close>, \<open>li\<close>, \<open>pth\<close> and \<open>rt\<close>, since the members of
  \<open>MerkleEntry\<close> have their names.
\<close>

type_synonym u32 = "32 word"
type_synonym u64 = "64 word"

subsection \<open>Data\<close>

text \<open>
  Modelled from the spec: the declaration of \<open>MerkleEntry\<close> is in the header, which is
  not among the sources. The members are those the source file uses: the seven of the
  designated initialiser of \<open>compute_root_from_path\<close>, and the three flags
  \<open>is_member\<close>, \<open>is_membership_op\<close> and \<open>is_update_op\<close> that the recording operations
  set and \<open>finalize\<close> reads. The initialiser does not name the flags, which leaves them
  at their default: false, the outcome of an entry being set by the operation that
  records it.
\<close>

record 'f MerkleEntry =
  clk :: u32
  leaf_value :: 'f
  leaf_index :: u32
  path :: "'f list"
  path_bits :: "bool list"
  path_values :: "'f list"
  root :: 'f
  is_member :: bool
  is_membership_op :: bool
  is_update_op :: bool

text \<open>
  Modelled from the spec: \<open>AvmFullRow\<close> is declared outside the sources; a row is a
  fixed sequence of field elements. These are the columns that \<open>finalize\<close> writes; the
  other columns of a row are the record's extension part and are never touched.
\<close>

record 'f AvmFullRow =
  merkle_tree_clk :: 'f
  merkle_tree_leaf_index :: 'f
  merkle_tree_leaf_value :: 'f
  merkle_tree_expected_tree_root :: 'f
  merkle_tree_leaf_index_is_even :: 'f
  merkle_tree_left_hash :: 'f
  merkle_tree_right_hash :: 'f
  merkle_tree_output_hash :: 'f
  merkle_tree_sibling_value :: 'f
  merkle_tree_path_len :: 'f
  merkle_tree_path_len_inv :: 'f
  merkle_tree_sel_merkle_tree :: 'f
  merkle_tree_diff_inv :: 'f
  merkle_tree_latch :: 'f
  merkle_tree_is_member :: 'f
  merkle_tree_sel_membership_op :: 'f
  merkle_tree_sel_update_op :: 'f

text \<open>
  The faults of \<open>finalize\<close>: \<open>std::vector::at\<close> throws \<open>std::out_of_range\<close>;
  inverting zero is fatal; \<open>operator[]\<close> beyond the end of a vector is undefined
  behaviour, kept apart as a fault of its own so that it is never silently given a value.
\<close>

datatype error = Out_of_range | Invert_zero | Index_undefined

text \<open>
  Modelled from the spec: the Poseidon2 gadget (\<open>poseidon2_builder\<close>) is an external
  collaborator, "\<open>hash(a, b, domain_id) -> field_element\<close>, deterministic". Its result is
  the parameter \<open>H\<close>; its state is the list of the calls it has received (inputs and
  clock), so that the domain identifier given to each call can be observed. The third
  argument of every call in this file is the constant \<open>Poseidon2Caller::MERKLE_TREE\<close> and
  is left out.
\<close>

type_synonym 'f poseidon2_calls = "('f list \<times> u32) list"

definition poseidon2_hash ::
  "('f list \<Rightarrow> u32 \<Rightarrow> 'f) \<Rightarrow> 'f list \<Rightarrow> u32 \<Rightarrow> 'f poseidon2_calls \<Rightarrow> 'f \<times> 'f poseidon2_calls" where
  "poseidon2_hash H input c calls = (H input c, calls @ [(input, c)])"

text \<open>
  Modelled from the spec: the field's \<open>invert\<close> is "defined only for nonzero elements
  (undefined/fatal for zero)".
\<close>

definition invert :: "'f::field \<Rightarrow> error + 'f" where
  "invert x = (if x = 0 then Inl Invert_zero else Inr (inverse x))"

record 'f AvmMerkleTreeTraceBuilder =
  merkle_check_trace :: "'f MerkleEntry list"
  poseidon2_builder :: "'f poseidon2_calls"

subsection \<open>compute\_root\_from\_path\<close>

text \<open>
  One iteration of the loop at lines 17-26. The state is
  \<open>(curr_value, curr_index, path_values, poseidon2_builder)\<close>; \<open>i\<close> is below
  \<open>path_length \<le> path.size()\<close>, so \<open>path[i]\<close> is always in range.
\<close>

definition root_level ::
  "('f list \<Rightarrow> u32 \<Rightarrow> 'f) \<Rightarrow> 'f list \<Rightarrow> u32 \<Rightarrow> nat
    \<Rightarrow> 'f \<times> u32 \<times> 'f list \<times> 'f poseidon2_calls
    \<Rightarrow> 'f \<times> u32 \<times> 'f list \<times> 'f poseidon2_calls" where
  "root_level H pth entry_id i s =
     (case s of (curr_value, curr_index, pvs, p2) \<Rightarrow>
        let path_parity = (curr_index mod 2 = 0);
            (h, p2') = (if path_parity
                        then poseidon2_hash H [curr_value, pth ! i] (entry_id + of_nat i) p2
                        else poseidon2_hash H [pth ! i, curr_value] (entry_id + of_nat i) p2)
        in (h, drop_bit 1 curr_index, pvs @ [h], p2'))"

definition compute_root_from_path ::
  "('f list \<Rightarrow> u32 \<Rightarrow> 'f) \<Rightarrow> u32 \<Rightarrow> 'f \<Rightarrow> u32 \<Rightarrow> 'f list \<Rightarrow> 'f poseidon2_calls
    \<Rightarrow> 'f MerkleEntry \<times> 'f poseidon2_calls" where
  "compute_root_from_path H c lv li pth p2 =
     (let path_length = (of_nat (length pth) :: u32);
          entry_id = push_bit 6 c
      in case fold (root_level H pth entry_id) [0..<unat path_length] (lv, li, [], p2) of
           (curr_value, curr_index, pvs, p2') \<Rightarrow>
             (\<lparr>clk = c, leaf_value = lv, leaf_index = li, path = pth, path_bits = [],
               path_values = pvs, root = curr_value,
               is_member = False, is_membership_op = False, is_update_op = False\<rparr>, p2'))"

subsection \<open>The two recording operations\<close>

definition check_membership ::
  "('f list \<Rightarrow> u32 \<Rightarrow> 'f) \<Rightarrow> u32 \<Rightarrow> 'f \<Rightarrow> u32 \<Rightarrow> 'f list \<Rightarrow> 'f
    \<Rightarrow> 'f AvmMerkleTreeTraceBuilder \<Rightarrow> bool \<times> 'f AvmMerkleTreeTraceBuilder" where
  "check_membership H c lv li pth rt b =
     (case compute_root_from_path H c lv li pth (poseidon2_builder b) of (entry0, p2) \<Rightarrow>
        let entry1 = entry0\<lparr>is_membership_op := True\<rparr>;
            member = (root entry1 = rt);
            entry2 = entry1\<lparr>is_member := member\<rparr>;
            entry3 = entry2\<lparr>root := (if member then root entry2 else rt)\<rparr>
        in (is_member entry3,
            b\<lparr>merkle_check_trace := merkle_check_trace b @ [entry3], poseidon2_builder := p2\<rparr>))"

definition update_leaf_index ::
  "('f list \<Rightarrow> u32 \<Rightarrow> 'f) \<Rightarrow> u32 \<Rightarrow> 'f \<Rightarrow> u32 \<Rightarrow> 'f list
    \<Rightarrow> 'f AvmMerkleTreeTraceBuilder \<Rightarrow> 'f \<times> 'f AvmMerkleTreeTraceBuilder" where
  "update_leaf_index H c lv li pth b =
     (case compute_root_from_path H c lv li pth (poseidon2_builder b) of (entry0, p2) \<Rightarrow>
        let entry1 = entry0\<lparr>is_update_op := True\<rparr>
        in (root entry1,
            b\<lparr>merkle_check_trace := merkle_check_trace b @ [entry1], poseidon2_builder := p2\<rparr>))"

subsection \<open>finalize\<close>

text \<open>
  A loop that a fault leaves at once. \<open>finalize\<close> writes the table in place; its model
  returns the new table, or the fault alone when the source throws.
\<close>

fun fold_res :: "('a \<Rightarrow> 's \<Rightarrow> error + 's) \<Rightarrow> 'a list \<Rightarrow> 's \<Rightarrow> error + 's" where
  "fold_res f [] s = Inr s"
| "fold_res f (x # xs) s = (case f x s of Inl e \<Rightarrow> Inl e | Inr s' \<Rightarrow> fold_res f xs s')"

text \<open>
  One iteration of the inner loop (lines 69-99). The state is
  \<open>(main_trace, main_trace_counter, leaf_index, curr_value)\<close>. \<open>i\<close> is a \<open>size_t\<close>, so
  \<open>(src.clk << 6) + i\<close> and \<open>path_length - i - 1\<close> are computed in 64 bits, while
  \<open>src.clk << 6\<close> and \<open>path_length - 1\<close> are computed in 32 bits before they are widened.
  \<open>src.path[i]\<close> is in range, \<open>i\<close> being below \<open>path_length \<le> src.path.size()\<close>;
  \<open>main_trace.at\<close> checks its index; \<open>src.path_values[i]\<close> is not checked by the source.
\<close>

definition finalize_level ::
  "'f::field MerkleEntry \<Rightarrow> u32 \<Rightarrow> nat
    \<Rightarrow> ('f, 'z) AvmFullRow_scheme list \<times> nat \<times> u32 \<times> 'f
    \<Rightarrow> error + (('f, 'z) AvmFullRow_scheme list \<times> nat \<times> u32 \<times> 'f)" where
  "finalize_level src path_length i s =
     (case s of (main_trace, main_trace_counter, li, curr_value) \<Rightarrow>
       (let sibling_value = path src ! i in
        if length main_trace \<le> main_trace_counter then Inl Out_of_range
        else if length (path_values src) \<le> i then Inl Index_undefined
        else
          let dest0 = main_trace ! main_trace_counter;
              remaining = (ucast path_length - of_nat i - 1 :: u64);
              dest1 = dest0\<lparr>
                merkle_tree_clk := of_nat (unat (ucast (push_bit 6 (clk src) :: u32) + of_nat i :: u64)),
                merkle_tree_leaf_index := of_nat (unat li),
                merkle_tree_leaf_value := curr_value,
                merkle_tree_expected_tree_root := root src,
                merkle_tree_leaf_index_is_even := (if li mod 2 = 0 then 1 else 0),
                merkle_tree_left_hash := (if li mod 2 = 0 then curr_value else sibling_value),
                merkle_tree_right_hash := (if li mod 2 = 0 then sibling_value else curr_value),
                merkle_tree_output_hash := path_values src ! i,
                merkle_tree_sibling_value := sibling_value,
                merkle_tree_path_len := of_nat (unat remaining)\<rparr>
          in case (if remaining = 0 then Inr 0 else invert (of_nat (unat remaining))) of
               Inl e \<Rightarrow> Inl e
             | Inr path_len_inv \<Rightarrow>
                 (case (if path_values src ! i - root src = 0 then Inr 0
                        else invert (path_values src ! i - root src)) of
                    Inl e \<Rightarrow> Inl e
                  | Inr diff_inv \<Rightarrow>
                      let dest2 = dest1\<lparr>
                            merkle_tree_path_len_inv := path_len_inv,
                            merkle_tree_sel_merkle_tree := 1,
                            merkle_tree_diff_inv := diff_inv\<rparr>;
                          dest3 = (if (of_nat i :: u64) = ucast (path_length - 1)
                                   then dest2\<lparr>
                                     merkle_tree_latch := 1,
                                     merkle_tree_is_member := (if is_member src then 1 else 0),
                                     merkle_tree_sel_membership_op :=
                                       (if is_membership_op src then 1 else 0),
                                     merkle_tree_sel_update_op :=
                                       (if is_update_op src then 1 else 0)\<rparr>
                                   else dest2)
                      in Inr (main_trace[main_trace_counter := dest3], main_trace_counter + 1,
                              drop_bit 1 li, path_values src ! i))))"

text \<open>The body of the outer loop (lines 65-100) for one entry of the log.\<close>

definition finalize_entry ::
  "'f::field MerkleEntry \<Rightarrow> ('f, 'z) AvmFullRow_scheme list \<times> nat
    \<Rightarrow> error + (('f, 'z) AvmFullRow_scheme list \<times> nat)" where
  "finalize_entry src s =
     (case s of (main_trace, main_trace_counter) \<Rightarrow>
       (let path_length = (of_nat (length (path src)) :: u32)
        in case fold_res (finalize_level src path_length) [0..<unat path_length]
                  (main_trace, main_trace_counter, leaf_index src, leaf_value src) of
             Inl e \<Rightarrow> Inl e
           | Inr (main_trace', main_trace_counter', li, curr_value) \<Rightarrow>
               Inr (main_trace', main_trace_counter')))"

text \<open>
  \<open>finalize_rows\<close> is \<open>finalize\<close> with the final value of the local \<open>main_trace_counter\<close>
  kept; \<open>finalize\<close> returns the table only, as the caller sees it.
\<close>

definition finalize_rows ::
  "'f::field AvmMerkleTreeTraceBuilder \<Rightarrow> ('f, 'z) AvmFullRow_scheme list
    \<Rightarrow> error + (('f, 'z) AvmFullRow_scheme list \<times> nat)" where
  "finalize_rows b main_trace = fold_res finalize_entry (merkle_check_trace b) (main_trace, 0)"

definition finalize ::
  "'f::field AvmMerkleTreeTraceBuilder \<Rightarrow> ('f, 'z) AvmFullRow_scheme list
    \<Rightarrow> error + ('f, 'z) AvmFullRow_scheme list" where
  "finalize b main_trace =
     (case finalize_rows b main_trace of Inl e \<Rightarrow> Inl e | Inr (main_trace', n) \<Rightarrow> Inr main_trace')"

subsection \<open>Sequences of recorded operations\<close>

text \<open>
  The builder starts with an empty log. A \<open>call\<close> is one invocation of a recording
  operation with its arguments; \<open>run\<close> performs a sequence of them on the empty builder
  and drops the returned values.
\<close>

datatype 'f call =
    Check_membership u32 'f u32 "'f list" 'f
  | Update_leaf_index u32 'f u32 "'f list"

definition empty_builder :: "'f AvmMerkleTreeTraceBuilder" where
  "empty_builder = \<lparr>merkle_check_trace = [], poseidon2_builder = []\<rparr>"

fun do_call ::
  "('f list \<Rightarrow> u32 \<Rightarrow> 'f) \<Rightarrow> 'f call \<Rightarrow> 'f AvmMerkleTreeTraceBuilder \<Rightarrow> 'f AvmMerkleTreeTraceBuilder" where
  "do_call H (Check_membership c lv li pth rt) b = snd (check_membership H c lv li pth rt b)"
| "do_call H (Update_leaf_index c lv li pth) b = snd (update_leaf_index H c lv li pth b)"

definition run :: "('f list \<Rightarrow> u32 \<Rightarrow> 'f) \<Rightarrow> 'f call list \<Rightarrow> 'f AvmMerkleTreeTraceBuilder" where
  "run H cs = fold (do_call H) cs empty_builder"

subsection \<open>The replay of the specification\<close>

text \<open>
  The leaf-to-root replay as the specification words it, by recursion on the siblings
  that are left: at level \<open>i\<close> the current node is the left child when the current index
  is even and the right child otherwise, the hash is taken with the domain
  \<open>(clock << 6) + i\<close>, the result is appended to \<open>path_values\<close> and the index is halved.
  The clock, the index and the domain are 32-bit values, as in the signature of
  \<open>compute_root_from_path\<close> and of the hash.
  The state is (current value, current index, path values, calls made to the hash).
\<close>

fun spec_replay ::
  "('f list \<Rightarrow> u32 \<Rightarrow> 'f) \<Rightarrow> u32 \<Rightarrow> nat \<Rightarrow> 'f list
    \<Rightarrow> 'f \<times> u32 \<times> 'f list \<times> 'f poseidon2_calls
    \<Rightarrow> 'f \<times> u32 \<times> 'f list \<times> 'f poseidon2_calls" where
  "spec_replay H clock i [] s = s"
| "spec_replay H clock i (sibling # siblings) (current_value, current_index, pvs, calls) =
     (let domain_id = push_bit 6 clock + of_nat i;
          operands = (if even (unat current_index) then [current_value, sibling]
                      else [sibling, current_value]);
          hashed = H operands domain_id
      in spec_replay H clock (Suc i) siblings
           (hashed, current_index div 2, pvs @ [hashed], calls @ [(operands, domain_id)]))"

text \<open>
  The entry and the hash calls that the replay over the siblings \<open>levels\<close> gives, for an
  operation on the path \<open>pth\<close>: the seven named members, the three flags unset.
\<close>

definition replay_entry ::
  "('f list \<Rightarrow> u32 \<Rightarrow> 'f) \<Rightarrow> u32 \<Rightarrow> 'f \<Rightarrow> u32 \<Rightarrow> 'f list \<Rightarrow> 'f list \<Rightarrow> 'f poseidon2_calls
    \<Rightarrow> 'f MerkleEntry \<times> 'f poseidon2_calls" where
  "replay_entry H clock lv li levels pth calls =
     (case spec_replay H clock 0 levels (lv, li, [], calls) of
        (current_value, current_index, pvs, calls') \<Rightarrow>
          (\<lparr>clk = clock, leaf_value = lv, leaf_index = li, path = pth, path_bits = [],
            path_values = pvs, root = current_value,
            is_member = False, is_membership_op = False, is_update_op = False\<rparr>, calls'))"

text \<open>A hash on the rationals for the concrete runs below; it tells its operands apart.\<close>

definition test_hash :: "rat list \<Rightarrow> u32 \<Rightarrow> rat" where
  "test_hash xs d = (case xs of [a, b] \<Rightarrow> 2 * a + 3 * b + of_nat (unat d) + 1 | _ \<Rightarrow> 0)"

text \<open>The length of a path as the source reads it: \<open>path.size()\<close> narrowed to 32 bits.\<close>

definition path_len :: "'f MerkleEntry \<Rightarrow> nat" where
  "path_len e = unat (of_nat (length (path e)) :: u32)"

subsection \<open>The row of one level\<close>

text \<open>
  The value threaded into level \<open>i\<close> of an entry: the leaf for level 0, the output of
  the level below otherwise.
\<close>

definition level_value :: "'f MerkleEntry \<Rightarrow> nat \<Rightarrow> 'f" where
  "level_value e i = (if i = 0 then leaf_value e else path_values e ! (i - 1))"

text \<open>
  What \<open>finalize\<close> makes of the row \<open>dest\<close> at level \<open>i\<close> of the entry \<open>e\<close>, in closed
  form and in natural numbers; \<open>finalize_level_row\<close> below shows that the loop body
  computes it.
\<close>

definition level_row ::
  "'f::field MerkleEntry \<Rightarrow> nat \<Rightarrow> ('f, 'z) AvmFullRow_scheme \<Rightarrow> ('f, 'z) AvmFullRow_scheme" where
  "level_row e i dest =
     (let li = drop_bit i (leaf_index e);
          cv = level_value e i;
          remaining = path_len e - i - 1;
          d = dest\<lparr>
                merkle_tree_clk := of_nat (unat (push_bit 6 (clk e)) + i),
                merkle_tree_leaf_index := of_nat (unat li),
                merkle_tree_leaf_value := cv,
                merkle_tree_expected_tree_root := root e,
                merkle_tree_leaf_index_is_even := (if even (unat li) then 1 else 0),
                merkle_tree_left_hash := (if even (unat li) then cv else path e ! i),
                merkle_tree_right_hash := (if even (unat li) then path e ! i else cv),
                merkle_tree_output_hash := path_values e ! i,
                merkle_tree_sibling_value := path e ! i,
                merkle_tree_path_len := of_nat remaining,
                merkle_tree_path_len_inv := (if remaining = 0 then 0 else inverse (of_nat remaining)),
                merkle_tree_sel_merkle_tree := 1,
                merkle_tree_diff_inv :=
                  (if path_values e ! i = root e then 0 else inverse (path_values e ! i - root e))\<rparr>
      in if Suc i = path_len e
         then d\<lparr>merkle_tree_latch := 1,
                merkle_tree_is_member := (if is_member e then 1 else 0),
                merkle_tree_sel_membership_op := (if is_membership_op e then 1 else 0),
                merkle_tree_sel_update_op := (if is_update_op e then 1 else 0)\<rparr>
         else d)"

subsection \<open>The table after finalize, in closed form\<close>

text \<open>
  The rows of the first \<open>m\<close> levels of entry \<open>e\<close> written from row \<open>c\<close> on, and the
  rows of a whole log written from row \<open>c\<close> on, one block per entry.
\<close>

definition write_rows ::
  "'f::field MerkleEntry \<Rightarrow> nat \<Rightarrow> nat \<Rightarrow> ('f, 'z) AvmFullRow_scheme list
    \<Rightarrow> ('f, 'z) AvmFullRow_scheme list" where
  "write_rows e c m mt = fold (\<lambda>i t. t[c + i := level_row e i (t ! (c + i))]) [0..<m] mt"

fun write_entries ::
  "'f::field MerkleEntry list \<Rightarrow> nat \<Rightarrow> ('f, 'z) AvmFullRow_scheme list
    \<Rightarrow> ('f, 'z) AvmFullRow_scheme list" where
  "write_entries [] c mt = mt"
| "write_entries (e # es) c mt = write_entries es (c + path_len e) (write_rows e c (path_len e) mt)"

text \<open>The number of rows a log asks for, and the first row of the block of entry \<open>k\<close>.\<close>

definition total_rows :: "'f MerkleEntry list \<Rightarrow> nat" where
  "total_rows es = sum_list (map path_len es)"

definition row_offset :: "'f MerkleEntry list \<Rightarrow> nat \<Rightarrow> nat" where
  "row_offset es k = total_rows (take k es)"

subsection \<open>The structure of a logged entry\<close>

text \<open>
  What holds of every entry the two recording operations append: one intermediate hash
  per level the loop ran, no direction bits, exactly one operation flag, and
  \<open>is_member\<close> only on a membership check.
\<close>

definition entry_inv :: "'f MerkleEntry \<Rightarrow> bool" where
  "entry_inv e =
     (length (path_values e) = path_len e \<and> path_bits e = [] \<and>
      (is_membership_op e \<noteq> is_update_op e) \<and> (is_member e \<longrightarrow> is_membership_op e))"

subsection \<open>Domain identifiers and test data\<close>

text \<open>The domain identifiers \<open>entry_id + i\<close> of the levels of an entry, in 32 bits.\<close>

definition level_domains :: "'f MerkleEntry \<Rightarrow> u32 list" where
  "level_domains e = map (\<lambda>j. push_bit 6 (clk e) + of_nat j) [0..<path_len e]"

text \<open>A row with every column zero, for the concrete tables below.\<close>

definition blank_row :: "'f::field AvmFullRow" where
  "blank_row =
     \<lparr>merkle_tree_clk = 0, merkle_tree_leaf_index = 0, merkle_tree_leaf_value = 0,
      merkle_tree_expected_tree_root = 0, merkle_tree_leaf_index_is_even = 0,
      merkle_tree_left_hash = 0, merkle_tree_right_hash = 0, merkle_tree_output_hash = 0,
      merkle_tree_sibling_value = 0, merkle_tree_path_len = 0, merkle_tree_path_len_inv = 0,
      merkle_tree_sel_merkle_tree = 0, merkle_tree_diff_inv = 0, merkle_tree_latch = 0,
      merkle_tree_is_member = 0, merkle_tree_sel_membership_op = 0,
      merkle_tree_sel_update_op = 0\<rparr>"


text \<open>
  Two recorded operations on the rationals: a membership check of depth 2 at leaf index 1
  against the root the path gives (281), and an update of depth 1.
\<close>

definition demo_calls :: "rat call list" where
  "demo_calls = [Check_membership 1 5 1 [7, 9] 281, Update_leaf_index 2 4 2 [3]]"

section \<open>Auxiliary facts\<close>

subsection \<open>Word arithmetic of the loop counters\<close>

lemma unat_u32_bound: "unat (w::u32) < 2 ^ 32"
  using unsigned_less[of w, where 'a=nat] by simp

lemma unat_of_nat32: "unat (of_nat n :: u32) = n mod 2 ^ 32"
  by (simp add: unat_of_nat)

lemma unat_ucast_u64: "unat (ucast (w::u32) :: u64) = unat w"
proof -
  have "unat w < 2 ^ 64" using unat_u32_bound[of w] by simp
  then show ?thesis by (simp add: unsigned_ucast_eq take_bit_nat_eq_self)
qed

lemma unat_of_nat_u64: "i < 2 ^ 64 \<Longrightarrow> unat (of_nat i :: u64) = i"
  by (simp add: unat_of_nat)

lemma word_mod2_even: "(w mod 2 = 0) = even (unat (w::u32))"
proof -
  have "(w mod 2 = 0) = (unat (w mod 2) = 0)" by (simp add: unat_eq_0)
  also have "\<dots> = (unat w mod 2 = 0)" by (simp add: unat_mod_distrib)
  also have "\<dots> = even (unat w)" by presburger
  finally show ?thesis .
qed

lemma drop_bit_1_div2: "drop_bit (Suc 0) (w::u32) = w div 2"
  by (simp add: drop_bit_eq_div)

text \<open>The row clock: a 32-bit shift widened to 64 bits, then a 64-bit addition.\<close>

lemma unat_row_clk:
  assumes "i < 2 ^ 32"
  shows "unat (ucast (w::u32) + of_nat i :: u64) = unat w + i"
proof -
  have i: "unat (of_nat i :: u64) = i" using assms by (simp add: unat_of_nat_u64)
  have "unat w + i < 2 ^ 64" using unat_u32_bound[of w] assms by simp
  then show ?thesis by (simp add: unat_word_ariths unat_ucast_u64 i)
qed

text \<open>The remaining length \<open>path_length - i - 1\<close> inside the loop does not wrap.\<close>

lemma unat_remaining:
  assumes "i < unat pl"
  shows "unat (ucast (pl::u32) - of_nat i - 1 :: u64) = unat pl - i - 1"
proof -
  have "(ucast pl - of_nat i - 1 :: u64) = of_nat (unat pl) - of_nat i - of_nat 1" by simp
  also have "\<dots> = of_nat (unat pl - i - 1)" using assms by (simp add: of_nat_diff)
  finally have "(ucast pl - of_nat i - 1 :: u64) = of_nat (unat pl - i - 1)" .
  moreover have "unat pl - i - 1 < 2 ^ 64" using unat_u32_bound[of pl] by simp
  ultimately show ?thesis by (simp add: unat_of_nat_u64)
qed

text \<open>The test \<open>i == path_length - 1\<close> inside the loop.\<close>

lemma last_level_test:
  assumes "i < unat pl"
  shows "((of_nat i :: u64) = ucast ((pl::u32) - 1)) = (Suc i = unat pl)"
proof -
  have "pl \<noteq> 0" using assms by auto
  then have m: "unat (pl - 1) = unat pl - 1" by (simp add: unat_minus_one)
  have i: "i < 2 ^ 64" using assms unat_u32_bound[of pl] by simp
  have "((of_nat i :: u64) = ucast (pl - 1))
        = (unat (of_nat i :: u64) = unat (ucast (pl - 1) :: u64))"
    by (simp only: word_unat_eq_iff)
  also have "\<dots> = (i = unat pl - 1)"
    using i by (simp only: unat_of_nat_u64 unat_ucast_u64 m)
  also have "\<dots> = (Suc i = unat pl)" using assms by auto
  finally show ?thesis .
qed

subsection \<open>The loop of compute\_root\_from\_path\<close>

lemma spec_replay_append:
  "spec_replay H c i (xs @ ys) s = spec_replay H c (i + length xs) ys (spec_replay H c i xs s)"
proof (induction xs arbitrary: i s)
  case Nil
  then show ?case by simp
next
  case (Cons x xs)
  obtain v idx pvs calls where s: "s = (v, idx, pvs, calls)" by (cases s) auto
  show ?case unfolding s by (simp add: Let_def Cons.IH)
qed

lemma root_level_spec:
  "root_level H pth (push_bit 6 c) n s = spec_replay H c n [pth ! n] s"
  by (cases s)
     (simp add: root_level_def poseidon2_hash_def Let_def word_mod2_even drop_bit_1_div2)

lemma fold_root_level:
  "n \<le> length pth \<Longrightarrow>
   fold (root_level H pth (push_bit 6 c)) [0..<n] s = spec_replay H c 0 (take n pth) s"
proof (induction n)
  case 0
  then show ?case by simp
next
  case (Suc n)
  then have n: "n < length pth" by simp
  have "take (Suc n) pth = take n pth @ [pth ! n]"
    using n by (simp add: take_Suc_conv_app_nth)
  then show ?case using Suc n
    by (simp add: spec_replay_append root_level_spec)
qed

lemma compute_root_from_path_spec:
  "compute_root_from_path H c lv li pth p2 =
     (case spec_replay H c 0 (take (length pth mod 2 ^ 32) pth) (lv, li, [], p2) of
        (v, idx, pvs, p2') \<Rightarrow>
          (\<lparr>clk = c, leaf_value = lv, leaf_index = li, path = pth, path_bits = [],
            path_values = pvs, root = v,
            is_member = False, is_membership_op = False, is_update_op = False\<rparr>, p2'))"
proof -
  have "length pth mod 2 ^ 32 \<le> length pth" by simp
  from fold_root_level[OF this] show ?thesis
    by (simp add: compute_root_from_path_def unat_of_nat32)
qed

subsection \<open>The loop body of finalize\<close>

lemma finalize_level_row:
  fixes src :: "'f::field MerkleEntry" and mt :: "('f, 'z) AvmFullRow_scheme list"
  assumes char: "\<And>n. 0 < n \<Longrightarrow> n < 2 ^ 32 \<Longrightarrow> of_nat n \<noteq> (0::'f)"
    and i: "i < path_len src" and pv: "i < length (path_values src)" and c: "c < length mt"
  shows "finalize_level src (of_nat (length (path src))) i
           (mt, c, drop_bit i (leaf_index src), level_value src i)
         = Inr (mt[c := level_row src i (mt ! c)], Suc c,
                drop_bit (Suc i) (leaf_index src), level_value src (Suc i))"
proof -
  define pl :: u32 where "pl = of_nat (length (path src))"
  define R where "R = path_len src - i - 1"
  have pl: "unat pl = path_len src" by (simp add: pl_def path_len_def)
  have i': "i < unat pl" using i pl by simp
  have r: "unat (ucast pl - of_nat i - 1 :: u64) = R"
    using unat_remaining[OF i'] pl by (simp add: R_def)
  have r0: "((ucast pl - of_nat i - 1 :: u64) = 0) = (R = 0)"
    unfolding r[symmetric] by (rule unat_eq_0[symmetric])
  have i32: "i < 2 ^ 32" using i' unat_u32_bound[of pl] by simp
  have lt: "((of_nat i :: u64) = ucast (pl - 1)) = (Suc i = path_len src)"
    using last_level_test[OF i'] pl by simp
  have nz: "R \<noteq> 0 \<Longrightarrow> (of_nat R :: 'f) \<noteq> 0"
  proof -
    assume a: "R \<noteq> 0"
    have b: "R < 2 ^ 32" using unat_u32_bound[of pl] pl by (simp add: R_def)
    from a have "0 < R" by simp
    from char[OF this b] show ?thesis .
  qed
  have d: "drop_bit (Suc i) (leaf_index src) = drop_bit 1 (drop_bit i (leaf_index src))"
    by simp
  have lv: "level_value src (Suc i) = path_values src ! i"
    by (simp add: level_value_def)
  have inv: "(if R = 0 then Inr 0 else invert (of_nat R :: 'f))
             = Inr (if R = 0 then 0 else inverse (of_nat R))"
    using nz by (simp add: invert_def)
  have dinv: "(if path_values src ! i - root src = 0 then Inr 0
               else invert (path_values src ! i - root src))
             = Inr (if path_values src ! i = root src then 0
                    else inverse (path_values src ! i - root src))"
    by (simp add: invert_def)
  have nc: "\<not> length mt \<le> c" and npv: "\<not> length (path_values src) \<le> i"
    using c pv by simp_all
  show ?thesis
    unfolding finalize_level_def pl_def[symmetric] d lv level_row_def Let_def prod.case
      R_def[symmetric] r r0 lt unat_row_clk[OF i32] word_mod2_even inv dinv
      if_not_P[OF nc] if_not_P[OF npv] sum.case
    by simp
qed

subsection \<open>The loops of finalize\<close>

lemma fold_res_append:
  "fold_res f (xs @ ys) s = (case fold_res f xs s of Inl e \<Rightarrow> Inl e | Inr s' \<Rightarrow> fold_res f ys s')"
  by (induction xs arbitrary: s) (auto split: sum.splits)

lemma write_rows_Suc:
  "write_rows e c (Suc m) mt =
     (write_rows e c m mt)[c + m := level_row e m (write_rows e c m mt ! (c + m))]"
  by (simp add: write_rows_def)

lemma length_write_rows: "length (write_rows e c m mt) = length mt"
  by (induction m) (simp_all add: write_rows_Suc, simp add: write_rows_def)

lemma nth_write_rows:
  "j < length mt \<Longrightarrow>
   write_rows e c m mt ! j = (if c \<le> j \<and> j < c + m then level_row e (j - c) (mt ! j) else mt ! j)"
proof (induction m)
  case 0
  then show ?case by (auto simp add: write_rows_def)
next
  case (Suc m)
  show ?case
  proof (cases "j = c + m")
    case True
    then show ?thesis using Suc by (simp add: write_rows_Suc length_write_rows)
  next
    case False
    then show ?thesis using Suc by (auto simp add: write_rows_Suc length_write_rows)
  qed
qed

lemma finalize_levels:
  fixes src :: "'f::field MerkleEntry" and mt :: "('f, 'z) AvmFullRow_scheme list"
  assumes char: "\<And>n. 0 < n \<Longrightarrow> n < 2 ^ 32 \<Longrightarrow> of_nat n \<noteq> (0::'f)"
    and pv: "path_len src \<le> length (path_values src)"
  shows "m \<le> path_len src \<Longrightarrow> c + m \<le> length mt \<Longrightarrow>
         fold_res (finalize_level src (of_nat (length (path src)))) [0..<m]
           (mt, c, leaf_index src, leaf_value src)
         = Inr (write_rows src c m mt, c + m, drop_bit m (leaf_index src), level_value src m)"
proof (induction m)
  case 0
  then show ?case by (simp add: write_rows_def level_value_def)
next
  case (Suc m)
  have "finalize_level src (of_nat (length (path src))) m
          (write_rows src c m mt, c + m, drop_bit m (leaf_index src), level_value src m)
        = Inr ((write_rows src c m mt)[c + m := level_row src m (write_rows src c m mt ! (c + m))],
               Suc (c + m), drop_bit (Suc m) (leaf_index src), level_value src (Suc m))"
    using Suc.prems pv by (intro finalize_level_row char) (simp_all add: length_write_rows)
  then show ?case using Suc by (simp add: fold_res_append write_rows_Suc)
qed


lemma finalize_level_out_of_range:
  "length mt \<le> c \<Longrightarrow> finalize_level src pl i (mt, c, li, cv) = Inl Out_of_range"
  by (simp add: finalize_level_def)

lemma finalize_levels_fault:
  fixes src :: "'f::field MerkleEntry" and mt :: "('f, 'z) AvmFullRow_scheme list"
  assumes char: "\<And>n. 0 < n \<Longrightarrow> n < 2 ^ 32 \<Longrightarrow> of_nat n \<noteq> (0::'f)"
    and pv: "path_len src \<le> length (path_values src)"
    and c: "c \<le> length mt" and over: "length mt < c + path_len src"
  shows "fold_res (finalize_level src (of_nat (length (path src)))) [0..<path_len src]
           (mt, c, leaf_index src, leaf_value src) = Inl Out_of_range"
proof -
  define m where "m = length mt - c"
  have m: "m < path_len src" "c + m = length mt" using c over by (simp_all add: m_def)
  have split: "[0..<path_len src] = [0..<m] @ m # [Suc m..<path_len src]"
  proof -
    have "[0..<path_len src] = [0..<m + (path_len src - m)]" using m(1) by simp
    also have "\<dots> = [0..<m] @ [m..<m + (path_len src - m)]"
      by (rule upt_add_eq_append) simp
    also have "[m..<m + (path_len src - m)] = m # [Suc m..<path_len src]"
      using m(1) by (simp add: upt_conv_Cons)
    finally show ?thesis .
  qed
  have first: "fold_res (finalize_level src (of_nat (length (path src)))) [0..<m]
           (mt, c, leaf_index src, leaf_value src)
         = Inr (write_rows src c m mt, c + m, drop_bit m (leaf_index src), level_value src m)"
    using m by (intro finalize_levels char pv) simp_all
  show ?thesis
    unfolding split
    by (simp add: fold_res_append first finalize_level_out_of_range length_write_rows m(2))
qed

lemma finalize_entry_ok:
  fixes src :: "'f::field MerkleEntry" and mt :: "('f, 'z) AvmFullRow_scheme list"
  assumes char: "\<And>n. 0 < n \<Longrightarrow> n < 2 ^ 32 \<Longrightarrow> of_nat n \<noteq> (0::'f)"
    and pv: "path_len src \<le> length (path_values src)"
    and cap: "c + path_len src \<le> length mt"
  shows "finalize_entry src (mt, c) = Inr (write_rows src c (path_len src) mt, c + path_len src)"
  using finalize_levels[OF char pv le_refl cap]
  by (simp add: finalize_entry_def Let_def path_len_def)

lemma finalize_entry_fault:
  fixes src :: "'f::field MerkleEntry" and mt :: "('f, 'z) AvmFullRow_scheme list"
  assumes char: "\<And>n. 0 < n \<Longrightarrow> n < 2 ^ 32 \<Longrightarrow> of_nat n \<noteq> (0::'f)"
    and pv: "path_len src \<le> length (path_values src)"
    and c: "c \<le> length mt" and over: "length mt < c + path_len src"
  shows "finalize_entry src (mt, c) = Inl Out_of_range"
  using finalize_levels_fault[OF char pv c over]
  by (simp add: finalize_entry_def Let_def path_len_def)

lemma length_write_entries: "length (write_entries es c mt) = length mt"
  by (induction es arbitrary: c mt) (simp_all add: length_write_rows)

lemma total_rows_Cons: "total_rows (e # es) = path_len e + total_rows es"
  by (simp add: total_rows_def)

lemma finalize_entries_ok:
  fixes es :: "'f::field MerkleEntry list" and mt :: "('f, 'z) AvmFullRow_scheme list"
  assumes char: "\<And>n. 0 < n \<Longrightarrow> n < 2 ^ 32 \<Longrightarrow> of_nat n \<noteq> (0::'f)"
  shows "list_all (\<lambda>e. path_len e \<le> length (path_values e)) es \<Longrightarrow> c + total_rows es \<le> length mt \<Longrightarrow>
         fold_res finalize_entry es (mt, c) = Inr (write_entries es c mt, c + total_rows es)"
proof (induction es arbitrary: c mt)
  case Nil
  then show ?case by (simp add: total_rows_def)
next
  case (Cons e es)
  have pv: "path_len e \<le> length (path_values e)" using Cons.prems by simp
  have cap: "c + path_len e \<le> length mt" using Cons.prems by (simp add: total_rows_Cons)
  have rest: "c + path_len e + total_rows es \<le> length (write_rows e c (path_len e) mt)"
    using Cons.prems by (simp add: total_rows_Cons length_write_rows)
  have fe: "finalize_entry e (mt, c) = Inr (write_rows e c (path_len e) mt, c + path_len e)"
    by (rule finalize_entry_ok[OF char pv cap])
  show ?case
    using Cons.IH[OF _ rest] Cons.prems(1)
    by (simp add: fe total_rows_Cons add.assoc)
qed

lemma finalize_entries_fault:
  fixes es :: "'f::field MerkleEntry list" and mt :: "('f, 'z) AvmFullRow_scheme list"
  assumes char: "\<And>n. 0 < n \<Longrightarrow> n < 2 ^ 32 \<Longrightarrow> of_nat n \<noteq> (0::'f)"
  shows "list_all (\<lambda>e. path_len e \<le> length (path_values e)) es \<Longrightarrow> c \<le> length mt \<Longrightarrow> length mt < c + total_rows es \<Longrightarrow>
         fold_res finalize_entry es (mt, c) = Inl Out_of_range"
proof (induction es arbitrary: c mt)
  case Nil
  then show ?case by (simp add: total_rows_def)
next
  case (Cons e es)
  have pv: "path_len e \<le> length (path_values e)" using Cons.prems by simp
  show ?case
  proof (cases "length mt < c + path_len e")
    case True
    have "finalize_entry e (mt, c) = Inl Out_of_range"
      by (rule finalize_entry_fault[OF char pv Cons.prems(2) True])
    then show ?thesis by simp
  next
    case False
    then have cap: "c + path_len e \<le> length mt" by simp
    have over: "length (write_rows e c (path_len e) mt) < c + path_len e + total_rows es"
      using Cons.prems by (simp add: total_rows_Cons length_write_rows)
    have c': "c + path_len e \<le> length (write_rows e c (path_len e) mt)"
      using cap by (simp add: length_write_rows)
    have fe: "finalize_entry e (mt, c) = Inr (write_rows e c (path_len e) mt, c + path_len e)"
      by (rule finalize_entry_ok[OF char pv cap])
    show ?thesis
      using Cons.IH[OF _ c' over] Cons.prems(1)
      by (simp add: fe)
  qed
qed

subsection \<open>The log of a sequence of operations\<close>

lemma spec_replay_length:
  "length (fst (snd (snd (spec_replay H c i xs s)))) = length (fst (snd (snd s))) + length xs"
proof (induction xs arbitrary: i s)
  case Nil
  then show ?case by simp
next
  case (Cons x xs)
  obtain v idx pvs calls where s: "s = (v, idx, pvs, calls)" by (cases s) auto
  show ?case unfolding s by (simp add: Let_def Cons.IH)
qed

lemma compute_root_from_path_fields:
  "clk (fst (compute_root_from_path H c lv li pth p2)) = c"
  "leaf_value (fst (compute_root_from_path H c lv li pth p2)) = lv"
  "leaf_index (fst (compute_root_from_path H c lv li pth p2)) = li"
  "path (fst (compute_root_from_path H c lv li pth p2)) = pth"
  "path_bits (fst (compute_root_from_path H c lv li pth p2)) = []"
  "is_member (fst (compute_root_from_path H c lv li pth p2)) = False"
  "is_membership_op (fst (compute_root_from_path H c lv li pth p2)) = False"
  "is_update_op (fst (compute_root_from_path H c lv li pth p2)) = False"
  by (simp_all add: compute_root_from_path_spec split: prod.splits)

lemma compute_root_from_path_length:
  "length (path_values (fst (compute_root_from_path H c lv li pth p2))) = length pth mod 2 ^ 32"
proof -
  have "length (fst (snd (snd (spec_replay H c 0 (take (length pth mod 2 ^ 32) pth) (lv, li, [], p2)))))
        = length pth mod 2 ^ 32"
    by (simp add: spec_replay_length min_def)
  then show ?thesis
    by (auto simp add: compute_root_from_path_spec split: prod.splits)
qed

lemma check_membership_log:
  "merkle_check_trace (snd (check_membership H c lv li pth rt b)) =
     merkle_check_trace b @
       [(fst (compute_root_from_path H c lv li pth (poseidon2_builder b)))
          \<lparr>root := rt,
           is_member := (root (fst (compute_root_from_path H c lv li pth (poseidon2_builder b))) = rt),
           is_membership_op := True\<rparr>]"
  by (auto simp add: check_membership_def Let_def split: prod.splits)

lemma update_leaf_index_log:
  "merkle_check_trace (snd (update_leaf_index H c lv li pth b)) =
     merkle_check_trace b @
       [(fst (compute_root_from_path H c lv li pth (poseidon2_builder b)))\<lparr>is_update_op := True\<rparr>]"
  by (simp add: update_leaf_index_def Let_def split: prod.splits)

lemma entry_inv_compute:
  "entry_inv ((fst (compute_root_from_path H c lv li pth p2))\<lparr>root := rt, is_member := m, is_membership_op := True\<rparr>)"
  "entry_inv ((fst (compute_root_from_path H c lv li pth p2))\<lparr>is_update_op := True\<rparr>)"
  by (simp_all add: entry_inv_def path_len_def unat_of_nat32 compute_root_from_path_fields
        compute_root_from_path_length)

lemma do_call_log:
  "\<exists>e. merkle_check_trace (do_call H cl b) = merkle_check_trace b @ [e] \<and> entry_inv e"
  by (cases cl) (simp_all add: check_membership_log update_leaf_index_log entry_inv_compute)

lemma run_snoc: "run H (cs @ [cl]) = do_call H cl (run H cs)"
  by (simp add: run_def)

lemma run_entry_inv: "list_all entry_inv (merkle_check_trace (run H cs))"
proof (induction cs rule: rev_induct)
  case Nil
  then show ?case by (simp add: run_def empty_builder_def)
next
  case (snoc cl cs)
  from do_call_log[of H cl "run H cs"] obtain e where
    "merkle_check_trace (do_call H cl (run H cs)) = merkle_check_trace (run H cs) @ [e]" "entry_inv e"
    by blast
  then show ?case using snoc by (simp add: run_snoc)
qed

lemma run_log_length: "length (merkle_check_trace (run H cs)) = length cs"
proof (induction cs rule: rev_induct)
  case Nil
  then show ?case by (simp add: run_def empty_builder_def)
next
  case (snoc cl cs)
  from do_call_log[of H cl "run H cs"] obtain e where
    "merkle_check_trace (do_call H cl (run H cs)) = merkle_check_trace (run H cs) @ [e]"
    by blast
  then show ?case using snoc by (simp add: run_snoc)
qed

lemma run_log_prefix:
  "take (length cs) (merkle_check_trace (run H (cs @ cs'))) = merkle_check_trace (run H cs)"
proof (induction cs' rule: rev_induct)
  case Nil
  then show ?case by (simp add: run_log_length)
next
  case (snoc cl cs')
  from do_call_log[of H cl "run H (cs @ cs')"] obtain e where
    e: "merkle_check_trace (do_call H cl (run H (cs @ cs'))) = merkle_check_trace (run H (cs @ cs')) @ [e]"
    by blast
  have "run H (cs @ cs' @ [cl]) = do_call H cl (run H (cs @ cs'))"
    using run_snoc[of H "cs @ cs'" cl] by simp
  then show ?case using snoc e by (simp add: run_log_length)
qed

subsection \<open>The table finalize leaves\<close>

lemma row_offset_0: "row_offset es 0 = 0"
  by (simp add: row_offset_def total_rows_def)

lemma row_offset_Suc: "row_offset (e # es) (Suc k) = path_len e + row_offset es k"
  by (simp add: row_offset_def total_rows_def)

lemma row_offset_bound:
  "k < length es \<Longrightarrow> i < path_len (es ! k) \<Longrightarrow> row_offset es k + i < total_rows es"
proof (induction es arbitrary: k)
  case Nil
  then show ?case by simp
next
  case (Cons e es)
  show ?case
  proof (cases k)
    case 0
    then show ?thesis using Cons.prems by (simp add: row_offset_0 total_rows_Cons)
  next
    case (Suc k')
    then show ?thesis using Cons.prems Cons.IH[of k']
      by (simp add: row_offset_Suc total_rows_Cons)
  qed
qed

lemma write_entries_frame:
  "j < length mt \<Longrightarrow> j < c \<or> c + total_rows es \<le> j \<Longrightarrow> write_entries es c mt ! j = mt ! j"
proof (induction es arbitrary: c mt)
  case Nil
  then show ?case by simp
next
  case (Cons e es)
  have "write_entries es (c + path_len e) (write_rows e c (path_len e) mt) ! j
        = write_rows e c (path_len e) mt ! j"
    using Cons.prems by (intro Cons.IH) (auto simp add: length_write_rows total_rows_Cons)
  also have "\<dots> = mt ! j"
    using Cons.prems by (auto simp add: nth_write_rows total_rows_Cons)
  finally show ?case by simp
qed

lemma nth_write_entries:
  "k < length es \<Longrightarrow> i < path_len (es ! k) \<Longrightarrow> c + total_rows es \<le> length mt \<Longrightarrow>
   write_entries es c mt ! (c + row_offset es k + i) = level_row (es ! k) i (mt ! (c + row_offset es k + i))"
proof (induction es arbitrary: c mt k)
  case Nil
  then show ?case by simp
next
  case (Cons e es)
  show ?case
  proof (cases k)
    case 0
    then have i: "i < path_len e" using Cons.prems by simp
    have "write_entries es (c + path_len e) (write_rows e c (path_len e) mt) ! (c + i)
          = write_rows e c (path_len e) mt ! (c + i)"
      using Cons.prems i by (intro write_entries_frame) (simp_all add: length_write_rows total_rows_Cons)
    also have "\<dots> = level_row e i (mt ! (c + i))"
      using Cons.prems i by (simp add: nth_write_rows total_rows_Cons)
    finally show ?thesis using 0 by (simp add: row_offset_0)
  next
    case (Suc k')
    then have k': "k' < length es" and i: "i < path_len (es ! k')" using Cons.prems by simp_all
    have b: "row_offset es k' + i < total_rows es" by (rule row_offset_bound[OF k' i])
    have cap: "c + path_len e + total_rows es \<le> length (write_rows e c (path_len e) mt)"
      using Cons.prems by (simp add: length_write_rows total_rows_Cons)
    have "write_entries es (c + path_len e) (write_rows e c (path_len e) mt)
            ! (c + path_len e + row_offset es k' + i)
          = level_row (es ! k') i (write_rows e c (path_len e) mt ! (c + path_len e + row_offset es k' + i))"
      by (rule Cons.IH[OF k' i cap])
    also have "write_rows e c (path_len e) mt ! (c + path_len e + row_offset es k' + i)
               = mt ! (c + path_len e + row_offset es k' + i)"
      using Cons.prems b by (simp add: nth_write_rows total_rows_Cons)
    finally show ?thesis using Suc by (simp add: row_offset_Suc add.assoc)
  qed
qed

lemma finalize_rows_ok:
  fixes mt :: "('f::field, 'z) AvmFullRow_scheme list"
  assumes char: "\<And>n. 0 < n \<Longrightarrow> n < 2 ^ 32 \<Longrightarrow> of_nat n \<noteq> (0::'f)"
    and cap: "total_rows (merkle_check_trace (run H cs)) \<le> length mt"
  shows "finalize_rows (run H cs) mt =
           Inr (write_entries (merkle_check_trace (run H cs)) 0 mt,
                total_rows (merkle_check_trace (run H cs)))"
proof -
  have "list_all (\<lambda>e. path_len e \<le> length (path_values e)) (merkle_check_trace (run H cs))"
    using run_entry_inv[of H cs] by (simp add: list_all_iff entry_inv_def)
  from finalize_entries_ok[OF char this, of 0 mt] cap show ?thesis
    by (simp add: finalize_rows_def)
qed

lemma finalize_rows_fault:
  fixes mt :: "('f::field, 'z) AvmFullRow_scheme list"
  assumes char: "\<And>n. 0 < n \<Longrightarrow> n < 2 ^ 32 \<Longrightarrow> of_nat n \<noteq> (0::'f)"
    and over: "length mt < total_rows (merkle_check_trace (run H cs))"
  shows "finalize_rows (run H cs) mt = Inl Out_of_range"
proof -
  have "list_all (\<lambda>e. path_len e \<le> length (path_values e)) (merkle_check_trace (run H cs))"
    using run_entry_inv[of H cs] by (simp add: list_all_iff entry_inv_def)
  from finalize_entries_fault[OF char this, of 0 mt] over show ?thesis
    by (simp add: finalize_rows_def)
qed

subsection \<open>The domain identifiers given to the hash\<close>

lemma spec_replay_domains:
  "map snd (snd (snd (snd (spec_replay H c i0 xs s)))) =
     map snd (snd (snd (snd s))) @ map (\<lambda>j. push_bit 6 c + of_nat j) [i0..<i0 + length xs]"
proof (induction xs arbitrary: i0 s)
  case Nil
  then show ?case by simp
next
  case (Cons x xs)
  obtain v idx pvs calls where s: "s = (v, idx, pvs, calls)" by (cases s) auto
  have "[i0..<i0 + length (x # xs)] = i0 # [Suc i0..<Suc i0 + length xs]"
    by (subst upt_rec) simp
  then show ?case unfolding s by (simp add: Let_def Cons.IH)
qed

lemma compute_root_from_path_domains:
  "map snd (snd (compute_root_from_path H c lv li pth p2)) =
     map snd p2 @ map (\<lambda>j. push_bit 6 c + of_nat j) [0..<length pth mod 2 ^ 32]"
proof -
  have "map snd (snd (snd (snd (spec_replay H c 0 (take (length pth mod 2 ^ 32) pth) (lv, li, [], p2)))))
        = map snd p2 @ map (\<lambda>j. push_bit 6 c + of_nat j) [0..<length pth mod 2 ^ 32]"
    by (simp add: spec_replay_domains min_def)
  then show ?thesis
    by (auto simp add: compute_root_from_path_spec split: prod.splits)
qed

lemma check_membership_calls:
  "poseidon2_builder (snd (check_membership H c lv li pth rt b)) =
     snd (compute_root_from_path H c lv li pth (poseidon2_builder b))"
  by (simp add: check_membership_def Let_def split: prod.splits)

lemma update_leaf_index_calls:
  "poseidon2_builder (snd (update_leaf_index H c lv li pth b)) =
     snd (compute_root_from_path H c lv li pth (poseidon2_builder b))"
  by (simp add: update_leaf_index_def Let_def split: prod.splits)

lemma do_call_domains:
  "map snd (poseidon2_builder (do_call H cl b)) =
     map snd (poseidon2_builder b) @ level_domains (last (merkle_check_trace (do_call H cl b)))"
proof (cases cl)
  case (Check_membership c lv li pth rt)
  then show ?thesis
    by (simp add: check_membership_log level_domains_def path_len_def unat_of_nat32
          compute_root_from_path_fields check_membership_calls update_leaf_index_calls
          compute_root_from_path_domains)
next
  case (Update_leaf_index c lv li pth)
  then show ?thesis
    by (simp add: update_leaf_index_log level_domains_def path_len_def unat_of_nat32
          compute_root_from_path_fields check_membership_calls update_leaf_index_calls
          compute_root_from_path_domains)
qed

lemma run_domains:
  "map snd (poseidon2_builder (run H cs)) = concat (map level_domains (merkle_check_trace (run H cs)))"
proof (induction cs rule: rev_induct)
  case Nil
  then show ?case by (simp add: run_def empty_builder_def)
next
  case (snoc cl cs)
  from do_call_log[of H cl "run H cs"] obtain e where
    e: "merkle_check_trace (do_call H cl (run H cs)) = merkle_check_trace (run H cs) @ [e]"
    by blast
  show ?case using snoc do_call_domains[of H cl "run H cs"] e by (simp add: run_snoc)
qed

lemma nth_concat_level_domains:
  "k < length es \<Longrightarrow> i < path_len (es ! k) \<Longrightarrow>
   concat (map level_domains es) ! (row_offset es k + i) = push_bit 6 (clk (es ! k)) + of_nat i"
proof (induction es arbitrary: k)
  case Nil
  then show ?case by simp
next
  case (Cons e es)
  show ?case
  proof (cases k)
    case 0
    then show ?thesis using Cons.prems
      by (simp add: row_offset_0 nth_append level_domains_def)
  next
    case (Suc k')
    then show ?thesis using Cons.prems Cons.IH[of k']
      by (simp add: row_offset_Suc nth_append level_domains_def add.assoc)
  qed
qed

lemma length_concat_level_domains: "length (concat (map level_domains es)) = total_rows es"
  by (induction es) (simp_all add: total_rows_def level_domains_def)

lemma run_call_domain:
  assumes "k < length (merkle_check_trace (run H cs))"
    and "i < path_len (merkle_check_trace (run H cs) ! k)"
  shows "snd (poseidon2_builder (run H cs) ! (row_offset (merkle_check_trace (run H cs)) k + i))
         = push_bit 6 (clk (merkle_check_trace (run H cs) ! k)) + of_nat i"
proof -
  let ?es = "merkle_check_trace (run H cs)"
  have b: "row_offset ?es k + i < total_rows ?es" by (rule row_offset_bound[OF assms])
  have len: "length (poseidon2_builder (run H cs)) = total_rows ?es"
    using run_domains[of H cs] length_concat_level_domains[of ?es]
    by (metis length_map)
  have "snd (poseidon2_builder (run H cs) ! (row_offset ?es k + i))
        = map snd (poseidon2_builder (run H cs)) ! (row_offset ?es k + i)"
    using b len by simp
  also have "\<dots> = push_bit 6 (clk (?es ! k)) + of_nat i"
    by (simp only: run_domains nth_concat_level_domains[OF assms])
  finally show ?thesis .
qed

subsection \<open>Further facts for the claims\<close>

lemma unat_drop_bit_u32: "unat (drop_bit i (w::u32)) = unat w div 2 ^ i"
  by (subst unat_drop_bit_eq) (simp add: drop_bit_eq_div)

lemma unat_push_bit_6: "unat (push_bit 6 (c::u32)) = 64 * (unat c mod 2 ^ 26)"
proof -
  have "unat (push_bit 6 c) = take_bit 32 (push_bit 6 (unat c))"
    by (subst unsigned_push_bit_eq) simp
  also have "\<dots> = (unat c * 64) mod (64 * 2 ^ 26)"
    by (simp add: push_bit_eq_mult take_bit_eq_mod)
  also have "\<dots> = 64 * (unat c mod 2 ^ 26)"
    by (simp add: mult.commute mult_mod_right)
  finally show ?thesis .
qed

lemma unat_level_domain:
  assumes "i < 64"
  shows "unat (push_bit 6 (c::u32) + of_nat i) = unat (push_bit 6 c) + i"
proof -
  have "unat c mod 2 ^ 26 < 2 ^ 26" by simp
  then have "unat c mod 2 ^ 26 \<le> 2 ^ 26 - 1" by linarith
  then have "64 * (unat c mod 2 ^ 26) \<le> 64 * (2 ^ 26 - 1)" by (rule mult_le_mono2)
  then have b: "unat (push_bit 6 c) + i < 2 ^ 32" using assms by (simp add: unat_push_bit_6)
  have i: "unat (of_nat i :: u32) = i" using assms by (simp add: unat_of_nat32)
  show ?thesis using b by (simp add: unat_word_ariths i)
qed

lemma unat_add_level:
  assumes "unat (w::u32) + i < 2 ^ 32"
  shows "unat (w + of_nat i) = unat w + i"
proof -
  have "i < 2 ^ 32" using assms by simp
  then have i: "unat (of_nat i :: u32) = i" by (simp add: unat_of_nat32)
  show ?thesis using assms by (simp add: unat_word_ariths i)
qed

lemma row_locate:
  "j < total_rows es \<Longrightarrow> \<exists>k<length es. \<exists>i<path_len (es ! k). j = row_offset es k + i"
proof (induction es arbitrary: j)
  case Nil
  then show ?case by (simp add: total_rows_def)
next
  case (Cons e es)
  show ?case
  proof (cases "j < path_len e")
    case True
    then have "0 < length (e # es) \<and> j < path_len ((e # es) ! 0) \<and> j = row_offset (e # es) 0 + j"
      by (simp add: row_offset_0)
    then show ?thesis by blast
  next
    case False
    then have "j - path_len e < total_rows es" using Cons.prems by (simp add: total_rows_Cons)
    from Cons.IH[OF this] obtain k i where
      ki: "k < length es" "i < path_len (es ! k)" "j - path_len e = row_offset es k + i" by blast
    then have "Suc k < length (e # es) \<and> i < path_len ((e # es) ! Suc k) \<and>
               j = row_offset (e # es) (Suc k) + i"
      using False by (simp add: row_offset_Suc)
    then show ?thesis by blast
  qed
qed

lemma total_rows_alt: "total_rows es = sum_list (map (\<lambda>e. length (path e) mod 2 ^ 32) es)"
  by (simp add: total_rows_def path_len_def unat_of_nat32 cong: map_cong)

lemma path_len_alt: "path_len e = length (path e) mod 2 ^ 32"
  by (simp add: path_len_def unat_of_nat32)

lemma total_rows_short:
  "list_all (\<lambda>e. length (path e) < 2 ^ 32) es \<Longrightarrow>
   total_rows es = sum_list (map (length \<circ> path) es)"
  by (induction es) (simp_all add: total_rows_def path_len_alt)


lemma finalize_entry_empty:
  "path src = [] \<Longrightarrow> finalize_entry src (mt, n) = Inr (mt, n)"
  by (simp add: finalize_entry_def)

lemma finalize_entry_empty': "path src = [] \<Longrightarrow> finalize_entry src s = Inr s"
  by (cases s) (simp add: finalize_entry_def)


lemma finalize_ok:
  fixes mt :: "('f::field, 'z) AvmFullRow_scheme list"
  assumes char: "\<And>n. 0 < n \<Longrightarrow> n < 2 ^ 32 \<Longrightarrow> of_nat n \<noteq> (0::'f)"
    and cap: "total_rows (merkle_check_trace (run H cs)) \<le> length mt"
  shows "finalize (run H cs) mt = Inr (write_entries (merkle_check_trace (run H cs)) 0 mt)"
  using finalize_rows_ok[OF char cap] by (simp add: finalize_def)

lemma finalize_fault:
  fixes mt :: "('f::field, 'z) AvmFullRow_scheme list"
  assumes char: "\<And>n. 0 < n \<Longrightarrow> n < 2 ^ 32 \<Longrightarrow> of_nat n \<noteq> (0::'f)"
    and over: "length mt < total_rows (merkle_check_trace (run H cs))"
  shows "finalize (run H cs) mt = Inl Out_of_range"
  using finalize_rows_fault[OF char over] by (simp add: finalize_def)

lemma nth_finalized:
  assumes "k < length es" and "i < path_len (es ! k)" and "total_rows es \<le> length mt"
  shows "write_entries es 0 mt ! (row_offset es k + i) = level_row (es ! k) i (mt ! (row_offset es k + i))"
  using nth_write_entries[of k es i 0 mt] assms by simp

lemma rat_char: "0 < n \<Longrightarrow> n < 2 ^ 32 \<Longrightarrow> of_nat n \<noteq> (0::rat)"
  by simp

lemma demo_log:
  "merkle_check_trace (run test_hash demo_calls) =
     [\<lparr>clk = 1, leaf_value = 5, leaf_index = 1, path = [7, 9], path_bits = [],
       path_values = [94, 281], root = 281,
       is_member = True, is_membership_op = True, is_update_op = False\<rparr>,
      \<lparr>clk = 2, leaf_value = 4, leaf_index = 2, path = [3], path_bits = [],
       path_values = [146], root = 146,
       is_member = False, is_membership_op = False, is_update_op = True\<rparr>]"
  by (simp add: run_def demo_calls_def empty_builder_def check_membership_def
        update_leaf_index_def compute_root_from_path_spec test_hash_def Let_def)

lemma demo_total: "total_rows (merkle_check_trace (run test_hash demo_calls)) = 3"
  by (simp add: demo_log total_rows_def path_len_alt)

lemma demo_offsets:
  "row_offset (merkle_check_trace (run test_hash demo_calls)) 0 = 0"
  "row_offset (merkle_check_trace (run test_hash demo_calls)) (Suc 0) = 2"
  by (simp_all add: demo_log row_offset_def total_rows_def path_len_alt)

lemma demo_root:
  "compute_root_from_path test_hash 1 5 1 [7, 9] [] =
     (\<lparr>clk = 1, leaf_value = 5, leaf_index = 1, path = [7, 9], path_bits = [],
       path_values = [94, 281], root = 281,
       is_member = False, is_membership_op = False, is_update_op = False\<rparr>,
      [([7, 5], 64), ([94, 9], 65)])"
  by (simp add: compute_root_from_path_spec test_hash_def Let_def)

lemma path_len_short: "length (path e) < 2 ^ 32 \<Longrightarrow> path_len e = length (path e)"
  by (simp add: path_len_alt)

lemma row_offset_short:
  assumes "list_all (\<lambda>e. length (path e) < 2 ^ 32) es"
  shows "row_offset es k = sum_list (map (length \<circ> path) (take k es))"
proof -
  have "list_all (\<lambda>e. length (path e) < 2 ^ 32) (take k es)"
    using assms by (auto simp add: list_all_iff dest: in_set_takeD)
  then show ?thesis unfolding row_offset_def by (rule total_rows_short)
qed

section \<open>The claims\<close>

text \<open>
  C1. For every clock, leaf value, leaf index and sibling path (of fewer than \<open>2^32\<close>
  siblings, which every tree of the data model's depth at most 63 has),
  \<open>compute_root_from_path\<close> computes exactly the leaf-to-root replay of the
  specification: it starts from the leaf value and the leaf index, at each level \<open>i\<close>
  from 0 to \<open>len(path) - 1\<close> hashes (current value, \<open>path[i]\<close>) when the current index is
  even and (\<open>path[i]\<close>, current value) when it is odd, with the domain
  \<open>(clock << 6) + i\<close>, appends the result to \<open>path_values\<close>, halves the index, and the
  entry's root is the last current value. The calls the hash receives are those of the
  replay too.
\<close>

theorem compute_root_from_path_replay:
  "length pth < 2 ^ 32 \<Longrightarrow>
   compute_root_from_path H c lv li pth p2 = replay_entry H c lv li pth pth p2"
  by (simp add: compute_root_from_path_spec replay_entry_def)

theorem compute_root_from_path_replay_witness:
  "length [7, 9 :: rat] < 2 ^ 32 \<and>
   compute_root_from_path test_hash 1 5 1 [7, 9] [] =
     (\<lparr>clk = 1, leaf_value = 5, leaf_index = 1, path = [7, 9], path_bits = [],
       path_values = [test_hash [7, 5] 64, test_hash [test_hash [7, 5] 64, 9] 65],
       root = test_hash [test_hash [7, 5] 64, 9] 65,
       is_member = False, is_membership_op = False, is_update_op = False\<rparr>,
      [([7, 5], 64), ([test_hash [7, 5] 64, 9], 65)])"
proof -
  have h: "length [7, 9 :: rat] < 2 ^ 32" by simp
  from compute_root_from_path_replay[of "[7, 9]" test_hash 1 5 1 "[]", OF h] h
  show ?thesis by (simp add: replay_entry_def Let_def)
qed

text \<open>
  C2. \<open>check_membership\<close> returns true exactly when the root that
  \<open>compute_root_from_path\<close> computes equals the supplied root. It appends one entry, the
  computed entry with \<open>is_membership_op\<close> set, \<open>is_member\<close> equal to the returned value and
  \<open>root\<close> equal to the computed root on a match and to the supplied root on a mismatch.
  The result is an ordinary boolean: the operation has no fault.
\<close>

theorem check_membership_outcome:
  "(let computed = fst (compute_root_from_path H c lv li pth (poseidon2_builder b));
        result = fst (check_membership H c lv li pth rt b);
        b' = snd (check_membership H c lv li pth rt b);
        e = last (merkle_check_trace b')
    in result = (root computed = rt) \<and>
       merkle_check_trace b' = merkle_check_trace b @ [e] \<and>
       is_member e = result \<and>
       root e = (if result then root computed else rt) \<and>
       is_membership_op e \<and> \<not> is_update_op e \<and>
       e = computed\<lparr>root := root e, is_member := result, is_membership_op := True\<rparr>)"
  by (simp add: Let_def check_membership_log compute_root_from_path_fields)
     (simp add: check_membership_def Let_def split: prod.splits)

theorem check_membership_outcome_witness:
  "fst (check_membership test_hash 1 5 1 [7, 9] 281 empty_builder) \<and>
   root (last (merkle_check_trace (snd (check_membership test_hash 1 5 1 [7, 9] 281 empty_builder)))) = 281 \<and>
   is_member (last (merkle_check_trace (snd (check_membership test_hash 1 5 1 [7, 9] 281 empty_builder)))) \<and>
   \<not> fst (check_membership test_hash 1 5 1 [7, 9] 300 empty_builder) \<and>
   root (last (merkle_check_trace (snd (check_membership test_hash 1 5 1 [7, 9] 300 empty_builder)))) = 300 \<and>
   \<not> is_member (last (merkle_check_trace (snd (check_membership test_hash 1 5 1 [7, 9] 300 empty_builder))))"
  using check_membership_outcome[of test_hash 1 5 1 "[7, 9]" empty_builder 281]
        check_membership_outcome[of test_hash 1 5 1 "[7, 9]" empty_builder 300]
  by (simp add: Let_def empty_builder_def demo_root)

text \<open>
  C3. Let \<open>es\<close> be the log after any sequence of operations, every logged path having
  fewer than \<open>2^32\<close> siblings (the data model's depth is at most 63), and let the table
  have at least as many rows as the sum over the entries of \<open>len(path)\<close>. Then
  \<open>finalize\<close> returns with its cursor at that sum, having started at 0 and moved one row
  per level; the row of level \<open>i\<close> of the \<open>k\<close>-th entry is the row whose index is the sum
  of \<open>len(path)\<close> over the entries before it, plus \<open>i\<close> (entries in append order, levels
  from the leaf up), and it is the row of that level; no row from the sum on is changed
  and the table keeps its length. (The field is one in which no natural number between 1
  and \<open>2^32 - 1\<close> is zero.)
\<close>

theorem finalize_row_accounting:
  fixes mt :: "('f::field, 'z) AvmFullRow_scheme list"
  assumes "\<And>n. 0 < n \<Longrightarrow> n < 2 ^ 32 \<Longrightarrow> of_nat n \<noteq> (0::'f)"
    and "list_all (\<lambda>e. length (path e) < 2 ^ 32) (merkle_check_trace (run H cs))"
    and "sum_list (map (length \<circ> path) (merkle_check_trace (run H cs))) \<le> length mt"
  shows "\<exists>mt'. finalize_rows (run H cs) mt
                  = Inr (mt', sum_list (map (length \<circ> path) (merkle_check_trace (run H cs)))) \<and>
           length mt' = length mt \<and>
           (\<forall>k<length (merkle_check_trace (run H cs)).
              \<forall>i<length (path (merkle_check_trace (run H cs) ! k)).
                mt' ! (sum_list (map (length \<circ> path) (take k (merkle_check_trace (run H cs)))) + i)
                  = level_row (merkle_check_trace (run H cs) ! k) i
                      (mt ! (sum_list (map (length \<circ> path)
                                (take k (merkle_check_trace (run H cs)))) + i))) \<and>
           (\<forall>j<length mt.
              sum_list (map (length \<circ> path) (merkle_check_trace (run H cs))) \<le> j \<longrightarrow>
              mt' ! j = mt ! j)"
proof -
  let ?es = "merkle_check_trace (run H cs)"
  have tot: "total_rows ?es = sum_list (map (length \<circ> path) ?es)"
    by (rule total_rows_short[OF assms(2)])
  have cap: "total_rows ?es \<le> length mt" using assms(3) tot by simp
  have r: "finalize_rows (run H cs) mt = Inr (write_entries ?es 0 mt, sum_list (map (length \<circ> path) ?es))"
    using finalize_rows_ok[OF assms(1) cap] tot by simp
  have rows: "\<forall>k<length ?es. \<forall>i<length (path (?es ! k)).
                write_entries ?es 0 mt ! (sum_list (map (length \<circ> path) (take k ?es)) + i)
                  = level_row (?es ! k) i (mt ! (sum_list (map (length \<circ> path) (take k ?es)) + i))"
  proof (intro allI impI)
    fix k i
    assume k: "k < length ?es" and i: "i < length (path (?es ! k))"
    have "length (path (?es ! k)) < 2 ^ 32"
      using assms(2) k by (simp add: list_all_length)
    then have "i < path_len (?es ! k)" using i by (simp add: path_len_short)
    from nth_finalized[OF k this cap]
    show "write_entries ?es 0 mt ! (sum_list (map (length \<circ> path) (take k ?es)) + i)
            = level_row (?es ! k) i (mt ! (sum_list (map (length \<circ> path) (take k ?es)) + i))"
      unfolding row_offset_short[OF assms(2)] .
  qed
  have frame: "\<forall>j<length mt. sum_list (map (length \<circ> path) ?es) \<le> j \<longrightarrow>
                 write_entries ?es 0 mt ! j = mt ! j"
    using tot by (simp add: write_entries_frame)
  show ?thesis
    using r rows frame length_write_entries[of ?es 0 mt] by blast
qed

theorem finalize_row_accounting_witness:
  "sum_list (map (length \<circ> path) (merkle_check_trace (run test_hash demo_calls)))
     \<le> length (replicate 4 (blank_row :: rat AvmFullRow)) \<and>
   (\<exists>mt'. finalize_rows (run test_hash demo_calls) (replicate 4 blank_row) = Inr (mt', 3) \<and>
         length mt' = 4 \<and>
         merkle_tree_output_hash (mt' ! 0) = 94 \<and>
         merkle_tree_output_hash (mt' ! 1) = 281 \<and>
         merkle_tree_output_hash (mt' ! 2) = 146 \<and>
         mt' ! 3 = blank_row)"
proof -
  let ?es = "merkle_check_trace (run test_hash demo_calls)"
  let ?mt = "replicate 4 (blank_row :: rat AvmFullRow)"
  have short: "list_all (\<lambda>e. length (path e) < 2 ^ 32) ?es" by (simp add: demo_log)
  have tot: "sum_list (map (length \<circ> path) ?es) = 3" by (simp add: demo_log)
  have cap: "sum_list (map (length \<circ> path) ?es) \<le> length ?mt" by (simp add: tot)
  from finalize_row_accounting[of test_hash demo_calls ?mt, OF rat_char short cap]
  obtain mt' where
    r: "finalize_rows (run test_hash demo_calls) ?mt = Inr (mt', sum_list (map (length \<circ> path) ?es))" and
    len: "length mt' = length ?mt" and
    rows: "\<forall>k<length ?es. \<forall>i<length (path (?es ! k)).
             mt' ! (sum_list (map (length \<circ> path) (take k ?es)) + i)
               = level_row (?es ! k) i (?mt ! (sum_list (map (length \<circ> path) (take k ?es)) + i))" and
    frame: "\<forall>j<length ?mt. sum_list (map (length \<circ> path) ?es) \<le> j \<longrightarrow> mt' ! j = ?mt ! j"
    by blast
  have k0: "0 < length ?es" and k1: "Suc 0 < length ?es"
    by (simp_all add: run_log_length demo_calls_def)
  have i00: "0 < length (path (?es ! 0))"
    and i01: "1 < length (path (?es ! 0))"
    and i10: "0 < length (path (?es ! Suc 0))"
    by (simp_all add: demo_log)
  have o0: "sum_list (map (length \<circ> path) (take 0 ?es)) = 0" by simp
  have o1: "sum_list (map (length \<circ> path) (take (Suc 0) ?es)) = 2" by (simp add: demo_log)
  have r0: "mt' ! 0 = level_row (?es ! 0) 0 blank_row"
    using rows[rule_format, OF k0 i00] by (simp add: o0)
  have r1: "mt' ! 1 = level_row (?es ! 0) 1 blank_row"
    using rows[rule_format, OF k0 i01] by (simp add: o0)
  have r2: "mt' ! 2 = level_row (?es ! Suc 0) 0 blank_row"
    using rows[rule_format, OF k1 i10] by (simp add: o1)
  have r3: "mt' ! 3 = blank_row"
    using frame[rule_format, of 3] by (simp add: tot)
  have "finalize_rows (run test_hash demo_calls) ?mt = Inr (mt', 3)"
    using r by (simp add: tot)
  moreover have "length mt' = 4" using len by simp
  moreover have "merkle_tree_output_hash (mt' ! 0) = 94"
    unfolding r0 by (simp add: demo_log level_row_def Let_def)
  moreover have "merkle_tree_output_hash (mt' ! 1) = 281"
    unfolding r1 by (simp add: demo_log level_row_def Let_def)
  moreover have "merkle_tree_output_hash (mt' ! 2) = 146"
    unfolding r2 by (simp add: demo_log level_row_def Let_def)
  ultimately show ?thesis using r3 cap by blast
qed

text \<open>
  C4. Let every logged path have at most 64 siblings (the clock scheme \<open>clk << 6\<close> leaves
  six bits for the level; the data model asks for depth at most 63). For the row that
  \<open>finalize\<close> writes for level \<open>i\<close> of the \<open>k\<close>-th logged entry \<open>e\<close>:
  \<^item> the row clock is \<open>(e.clk << 6) + i\<close>, which is exactly the domain identifier that
    \<open>compute_root_from_path\<close> gave the hash at that level;
  \<^item> the leaf index at the level is \<open>e.leaf_index\<close> halved \<open>i\<close> times;
  \<^item> the leaf value at the level is \<open>e.leaf_value\<close> for \<open>i = 0\<close> and \<open>e.path_values[i-1]\<close>
    otherwise;
  \<^item> the left and right operands are (leaf value at the level, \<open>e.path[i]\<close>) when the leaf
    index at the level is even and (\<open>e.path[i]\<close>, leaf value at the level) when it is odd,
    and the parity selector is 1 exactly when it is even (and 0 otherwise);
  \<^item> the output hash is \<open>e.path_values[i]\<close>, the expected root is \<open>e.root\<close>, and the
    remaining length is \<open>len(e.path) - i - 1\<close>.
  (The field is one in which no natural number between 1 and \<open>2^32 - 1\<close> is zero.)
\<close>

theorem finalize_row_columns:
  fixes mt :: "('f::field, 'z) AvmFullRow_scheme list"
  assumes "\<And>n. 0 < n \<Longrightarrow> n < 2 ^ 32 \<Longrightarrow> of_nat n \<noteq> (0::'f)"
    and "list_all (\<lambda>e. length (path e) \<le> 64) (merkle_check_trace (run H cs))"
    and "sum_list (map (length \<circ> path) (merkle_check_trace (run H cs))) \<le> length mt"
  shows "\<exists>mt'. finalize (run H cs) mt = Inr mt' \<and>
           (\<forall>k<length (merkle_check_trace (run H cs)).
              \<forall>i<length (path (merkle_check_trace (run H cs) ! k)).
                (let e = merkle_check_trace (run H cs) ! k;
                     row = mt' ! (sum_list (map (length \<circ> path) (take k (merkle_check_trace (run H cs)))) + i);
                     hash_domain =
                       snd (poseidon2_builder (run H cs)
                              ! (sum_list (map (length \<circ> path) (take k (merkle_check_trace (run H cs)))) + i));
                     index_at_level = unat (leaf_index e) div 2 ^ i;
                     value_at_level = (if i = 0 then leaf_value e else path_values e ! (i - 1))
                 in hash_domain = push_bit 6 (clk e) + of_nat i \<and>
                    merkle_tree_clk row = of_nat (unat hash_domain) \<and>
                    merkle_tree_clk row = of_nat (unat (push_bit 6 (clk e)) + i) \<and>
                    merkle_tree_leaf_index row = of_nat index_at_level \<and>
                    merkle_tree_leaf_value row = value_at_level \<and>
                    merkle_tree_left_hash row = (if even index_at_level then value_at_level else path e ! i) \<and>
                    merkle_tree_right_hash row = (if even index_at_level then path e ! i else value_at_level) \<and>
                    merkle_tree_leaf_index_is_even row = (if even index_at_level then 1 else 0) \<and>
                    (merkle_tree_leaf_index_is_even row = 1) = even index_at_level \<and>
                    merkle_tree_output_hash row = path_values e ! i \<and>
                    merkle_tree_sibling_value row = path e ! i \<and>
                    merkle_tree_expected_tree_root row = root e \<and>
                    merkle_tree_path_len row = of_nat (length (path e) - i - 1)))"
proof -
  let ?es = "merkle_check_trace (run H cs)"
  have short: "list_all (\<lambda>e. length (path e) < 2 ^ 32) ?es"
    using assms(2) by (auto simp add: list_all_iff)
  have tot: "total_rows ?es = sum_list (map (length \<circ> path) ?es)"
    by (rule total_rows_short[OF short])
  have cap: "total_rows ?es \<le> length mt" using assms(3) tot by simp
  have r: "finalize (run H cs) mt = Inr (write_entries ?es 0 mt)"
    by (rule finalize_ok[OF assms(1) cap])
  have "\<forall>k<length ?es. \<forall>i<length (path (?es ! k)).
                (let e = ?es ! k;
                     row = write_entries ?es 0 mt ! (sum_list (map (length \<circ> path) (take k (?es))) + i);
                     hash_domain =
                       snd (poseidon2_builder (run H cs)
                              ! (sum_list (map (length \<circ> path) (take k (?es))) + i));
                     index_at_level = unat (leaf_index e) div 2 ^ i;
                     value_at_level = (if i = 0 then leaf_value e else path_values e ! (i - 1))
                 in hash_domain = push_bit 6 (clk e) + of_nat i \<and>
                    merkle_tree_clk row = of_nat (unat hash_domain) \<and>
                    merkle_tree_clk row = of_nat (unat (push_bit 6 (clk e)) + i) \<and>
                    merkle_tree_leaf_index row = of_nat index_at_level \<and>
                    merkle_tree_leaf_value row = value_at_level \<and>
                    merkle_tree_left_hash row = (if even index_at_level then value_at_level else path e ! i) \<and>
                    merkle_tree_right_hash row = (if even index_at_level then path e ! i else value_at_level) \<and>
                    merkle_tree_leaf_index_is_even row = (if even index_at_level then 1 else 0) \<and>
                    (merkle_tree_leaf_index_is_even row = 1) = even index_at_level \<and>
                    merkle_tree_output_hash row = path_values e ! i \<and>
                    merkle_tree_sibling_value row = path e ! i \<and>
                    merkle_tree_expected_tree_root row = root e \<and>
                    merkle_tree_path_len row = of_nat (length (path e) - i - 1))"
  proof (intro allI impI)
    fix k i
    assume k: "k < length ?es" and i: "i < length (path (?es ! k))"
    have l64: "length (path (?es ! k)) \<le> 64"
      using assms(2) k by (simp add: list_all_length)
    then have pl: "path_len (?es ! k) = length (path (?es ! k))"
      by (simp add: path_len_short)
    have i64: "i < 64" using i l64 by simp
    have i': "i < path_len (?es ! k)" using i pl by simp
    have off: "sum_list (map (length \<circ> path) (take k ?es)) = row_offset ?es k"
      by (rule row_offset_short[OF short, symmetric])
    have row: "write_entries ?es 0 mt ! (row_offset ?es k + i)
                 = level_row (?es ! k) i (mt ! (row_offset ?es k + i))"
      by (rule nth_finalized[OF k i' cap])
    have dom: "snd (poseidon2_builder (run H cs) ! (row_offset ?es k + i))
                 = push_bit 6 (clk (?es ! k)) + of_nat i"
      by (rule run_call_domain[OF k i'])
    show "(let e = ?es ! k;
                     row = write_entries ?es 0 mt ! (sum_list (map (length \<circ> path) (take k (?es))) + i);
                     hash_domain =
                       snd (poseidon2_builder (run H cs)
                              ! (sum_list (map (length \<circ> path) (take k (?es))) + i));
                     index_at_level = unat (leaf_index e) div 2 ^ i;
                     value_at_level = (if i = 0 then leaf_value e else path_values e ! (i - 1))
                 in hash_domain = push_bit 6 (clk e) + of_nat i \<and>
                    merkle_tree_clk row = of_nat (unat hash_domain) \<and>
                    merkle_tree_clk row = of_nat (unat (push_bit 6 (clk e)) + i) \<and>
                    merkle_tree_leaf_index row = of_nat index_at_level \<and>
                    merkle_tree_leaf_value row = value_at_level \<and>
                    merkle_tree_left_hash row = (if even index_at_level then value_at_level else path e ! i) \<and>
                    merkle_tree_right_hash row = (if even index_at_level then path e ! i else value_at_level) \<and>
                    merkle_tree_leaf_index_is_even row = (if even index_at_level then 1 else 0) \<and>
                    (merkle_tree_leaf_index_is_even row = 1) = even index_at_level \<and>
                    merkle_tree_output_hash row = path_values e ! i \<and>
                    merkle_tree_sibling_value row = path e ! i \<and>
                    merkle_tree_expected_tree_root row = root e \<and>
                    merkle_tree_path_len row = of_nat (length (path e) - i - 1))"
      unfolding off row dom using i64
      by (simp add: Let_def level_row_def level_value_def unat_drop_bit_u32 unat_level_domain pl
            del: of_nat_unat)
  qed
  with r show ?thesis by blast
qed

theorem finalize_row_columns_witness:
  "sum_list (map (length \<circ> path) (merkle_check_trace (run test_hash demo_calls)))
     \<le> length (replicate 4 (blank_row :: rat AvmFullRow)) \<and>
   (\<exists>mt'. finalize (run test_hash demo_calls) (replicate 4 blank_row) = Inr mt' \<and>
         merkle_tree_clk (mt' ! 0) = 64 \<and>
         snd (poseidon2_builder (run test_hash demo_calls) ! 0) = 64 \<and>
         merkle_tree_leaf_index (mt' ! 0) = 1 \<and>
         merkle_tree_leaf_value (mt' ! 0) = 5 \<and>
         merkle_tree_left_hash (mt' ! 0) = 7 \<and>
         merkle_tree_right_hash (mt' ! 0) = 5 \<and>
         merkle_tree_leaf_index_is_even (mt' ! 0) = 0 \<and>
         merkle_tree_output_hash (mt' ! 0) = 94 \<and>
         merkle_tree_expected_tree_root (mt' ! 0) = 281 \<and>
         merkle_tree_path_len (mt' ! 0) = 1 \<and>
         merkle_tree_clk (mt' ! 1) = 65 \<and>
         snd (poseidon2_builder (run test_hash demo_calls) ! 1) = 65 \<and>
         merkle_tree_leaf_index (mt' ! 1) = 0 \<and>
         merkle_tree_leaf_value (mt' ! 1) = 94 \<and>
         merkle_tree_left_hash (mt' ! 1) = 94 \<and>
         merkle_tree_right_hash (mt' ! 1) = 9 \<and>
         merkle_tree_leaf_index_is_even (mt' ! 1) = 1 \<and>
         merkle_tree_output_hash (mt' ! 1) = 281 \<and>
         merkle_tree_expected_tree_root (mt' ! 1) = 281 \<and>
         merkle_tree_path_len (mt' ! 1) = 0)"
proof -
  let ?es = "merkle_check_trace (run test_hash demo_calls)"
  let ?mt = "replicate 4 (blank_row :: rat AvmFullRow)"
  have short: "list_all (\<lambda>e. length (path e) \<le> 64) ?es" by (simp add: demo_log)
  have cap: "sum_list (map (length \<circ> path) ?es) \<le> length ?mt" by (simp add: demo_log)
  have k0: "0 < length ?es" by (simp add: run_log_length demo_calls_def)
  have i00: "0 < length (path (?es ! 0))"
    and i01: "1 < length (path (?es ! 0))"
    by (simp_all add: demo_log)
  have o0: "sum_list (map (length \<circ> path) (take 0 ?es)) = 0" by simp
  from finalize_row_columns[of test_hash demo_calls ?mt, OF rat_char short cap]
  obtain mt' where
    r: "finalize (run test_hash demo_calls) ?mt = Inr mt'" and
    rows: "\<And>k i. k < length ?es \<Longrightarrow> i < length (path (?es ! k)) \<Longrightarrow>
       (let e = ?es ! k;
                     row = mt' ! (sum_list (map (length \<circ> path) (take k (?es))) + i);
                     hash_domain =
                       snd (poseidon2_builder (run test_hash demo_calls)
                              ! (sum_list (map (length \<circ> path) (take k (?es))) + i));
                     index_at_level = unat (leaf_index e) div 2 ^ i;
                     value_at_level = (if i = 0 then leaf_value e else path_values e ! (i - 1))
                 in hash_domain = push_bit 6 (clk e) + of_nat i \<and>
                    merkle_tree_clk row = of_nat (unat hash_domain) \<and>
                    merkle_tree_clk row = of_nat (unat (push_bit 6 (clk e)) + i) \<and>
                    merkle_tree_leaf_index row = of_nat index_at_level \<and>
                    merkle_tree_leaf_value row = value_at_level \<and>
                    merkle_tree_left_hash row = (if even index_at_level then value_at_level else path e ! i) \<and>
                    merkle_tree_right_hash row = (if even index_at_level then path e ! i else value_at_level) \<and>
                    merkle_tree_leaf_index_is_even row = (if even index_at_level then 1 else 0) \<and>
                    (merkle_tree_leaf_index_is_even row = 1) = even index_at_level \<and>
                    merkle_tree_output_hash row = path_values e ! i \<and>
                    merkle_tree_sibling_value row = path e ! i \<and>
                    merkle_tree_expected_tree_root row = root e \<and>
                    merkle_tree_path_len row = of_nat (length (path e) - i - 1))"
    by blast
  have row0: "merkle_tree_clk (mt' ! 0) = 64 \<and>
         snd (poseidon2_builder (run test_hash demo_calls) ! 0) = 64 \<and>
         merkle_tree_leaf_index (mt' ! 0) = 1 \<and>
         merkle_tree_leaf_value (mt' ! 0) = 5 \<and>
         merkle_tree_left_hash (mt' ! 0) = 7 \<and>
         merkle_tree_right_hash (mt' ! 0) = 5 \<and>
         merkle_tree_leaf_index_is_even (mt' ! 0) = 0 \<and>
         merkle_tree_output_hash (mt' ! 0) = 94 \<and>
         merkle_tree_expected_tree_root (mt' ! 0) = 281 \<and>
         merkle_tree_path_len (mt' ! 0) = 1"
    using rows[OF k0 i00] unfolding o0 by (simp add: Let_def) (simp add: demo_log)
  have row1: "merkle_tree_clk (mt' ! 1) = 65 \<and>
         snd (poseidon2_builder (run test_hash demo_calls) ! 1) = 65 \<and>
         merkle_tree_leaf_index (mt' ! 1) = 0 \<and>
         merkle_tree_leaf_value (mt' ! 1) = 94 \<and>
         merkle_tree_left_hash (mt' ! 1) = 94 \<and>
         merkle_tree_right_hash (mt' ! 1) = 9 \<and>
         merkle_tree_leaf_index_is_even (mt' ! 1) = 1 \<and>
         merkle_tree_output_hash (mt' ! 1) = 281 \<and>
         merkle_tree_expected_tree_root (mt' ! 1) = 281 \<and>
         merkle_tree_path_len (mt' ! 1) = 0"
    using rows[OF k0 i01] unfolding o0 by (simp add: Let_def) (simp add: demo_log)
  from r row0 row1 cap show ?thesis by blast
qed

text \<open>
  C5. In a field in which no natural number between 1 and \<open>2^32 - 1\<close> is zero (the
  declaration of \<open>FF\<close> is outside this file; the BN254 scalar field is such a field),
  \<open>finalize\<close> never inverts zero, whatever the log and the table: it never ends in the
  fault \<open>Invert_zero\<close>. On every row that it writes (every row below \<open>total_rows es\<close>
  when the table has room for them), the inverse columns obey the is-zero-indicator
  law: \<open>path_len_inv\<close> is 0 iff \<open>path_len\<close> is 0 and otherwise their product is 1;
  \<open>diff_inv\<close> is 0 iff \<open>output_hash = expected_tree_root\<close> and otherwise
  \<open>(output_hash - expected_tree_root) * diff_inv = 1\<close>.
\<close>

theorem finalize_inverse_columns:
  fixes mt :: "('f::field, 'z) AvmFullRow_scheme list"
  assumes "\<And>n. 0 < n \<Longrightarrow> n < 2 ^ 32 \<Longrightarrow> of_nat n \<noteq> (0::'f)"
  shows "finalize (run H cs) mt \<noteq> Inl Invert_zero \<and>
         (total_rows (merkle_check_trace (run H cs)) \<le> length mt \<longrightarrow>
          (\<exists>mt'. finalize (run H cs) mt = Inr mt' \<and>
             (\<forall>j<total_rows (merkle_check_trace (run H cs)).
                (let row = mt' ! j
                 in (merkle_tree_path_len_inv row = 0) = (merkle_tree_path_len row = 0) \<and>
                    (merkle_tree_path_len row \<noteq> 0 \<longrightarrow>
                       merkle_tree_path_len row * merkle_tree_path_len_inv row = 1) \<and>
                    (merkle_tree_diff_inv row = 0)
                      = (merkle_tree_output_hash row = merkle_tree_expected_tree_root row) \<and>
                    (merkle_tree_output_hash row \<noteq> merkle_tree_expected_tree_root row \<longrightarrow>
                       (merkle_tree_output_hash row - merkle_tree_expected_tree_root row)
                         * merkle_tree_diff_inv row = 1)))))"
proof (intro conjI impI)
  let ?es = "merkle_check_trace (run H cs)"
  show "finalize (run H cs) mt \<noteq> Inl Invert_zero"
  proof (cases "total_rows ?es \<le> length mt")
    case True
    from finalize_ok[OF assms True] show ?thesis by simp
  next
    case False
    then have "length mt < total_rows ?es" by simp
    from finalize_fault[OF assms this] show ?thesis by simp
  qed
next
  let ?es = "merkle_check_trace (run H cs)"
  assume cap: "total_rows ?es \<le> length mt"
  have r: "finalize (run H cs) mt = Inr (write_entries ?es 0 mt)"
    by (rule finalize_ok[OF assms cap])
  have "\<forall>j<total_rows ?es.
          (let row = write_entries ?es 0 mt ! j
           in (merkle_tree_path_len_inv row = 0) = (merkle_tree_path_len row = 0) \<and>
              (merkle_tree_path_len row \<noteq> 0 \<longrightarrow>
                 merkle_tree_path_len row * merkle_tree_path_len_inv row = 1) \<and>
              (merkle_tree_diff_inv row = 0)
                = (merkle_tree_output_hash row = merkle_tree_expected_tree_root row) \<and>
              (merkle_tree_output_hash row \<noteq> merkle_tree_expected_tree_root row \<longrightarrow>
                 (merkle_tree_output_hash row - merkle_tree_expected_tree_root row)
                   * merkle_tree_diff_inv row = 1))"
  proof (intro allI impI)
    fix j
    assume "j < total_rows ?es"
    from row_locate[OF this] obtain k i where
      k: "k < length ?es" and i: "i < path_len (?es ! k)" and j: "j = row_offset ?es k + i"
      by blast
    define R where "R = path_len (?es ! k) - i - 1"
    have row: "write_entries ?es 0 mt ! j = level_row (?es ! k) i (mt ! j)"
      unfolding j by (rule nth_finalized[OF k i cap])
    have Rb: "R < 2 ^ 32" using unat_u32_bound[of "of_nat (length (path (?es ! k)))"]
      by (simp add: R_def path_len_def)
    have nz: "R \<noteq> 0 \<Longrightarrow> (of_nat R :: 'f) \<noteq> 0"
      using assms[of R] Rb by simp
    have z: "((of_nat R :: 'f) = 0) = (R = 0)" using nz by auto
    show "let row = write_entries ?es 0 mt ! j
          in (merkle_tree_path_len_inv row = 0) = (merkle_tree_path_len row = 0) \<and>
             (merkle_tree_path_len row \<noteq> 0 \<longrightarrow>
                merkle_tree_path_len row * merkle_tree_path_len_inv row = 1) \<and>
             (merkle_tree_diff_inv row = 0)
               = (merkle_tree_output_hash row = merkle_tree_expected_tree_root row) \<and>
             (merkle_tree_output_hash row \<noteq> merkle_tree_expected_tree_root row \<longrightarrow>
                (merkle_tree_output_hash row - merkle_tree_expected_tree_root row)
                  * merkle_tree_diff_inv row = 1)"
      unfolding row level_row_def Let_def R_def[symmetric]
      using nz z by (simp del: of_nat_unat)
  qed
  with r show "\<exists>mt'. finalize (run H cs) mt = Inr mt' \<and>
             (\<forall>j<total_rows ?es.
                (let row = mt' ! j
                 in (merkle_tree_path_len_inv row = 0) = (merkle_tree_path_len row = 0) \<and>
                    (merkle_tree_path_len row \<noteq> 0 \<longrightarrow>
                       merkle_tree_path_len row * merkle_tree_path_len_inv row = 1) \<and>
                    (merkle_tree_diff_inv row = 0)
                      = (merkle_tree_output_hash row = merkle_tree_expected_tree_root row) \<and>
                    (merkle_tree_output_hash row \<noteq> merkle_tree_expected_tree_root row \<longrightarrow>
                       (merkle_tree_output_hash row - merkle_tree_expected_tree_root row)
                         * merkle_tree_diff_inv row = 1)))"
    by blast
qed


theorem finalize_inverse_columns_witness:
  "finalize (run test_hash demo_calls) (replicate 4 blank_row) \<noteq> Inl Invert_zero \<and>
   (\<exists>mt'. finalize (run test_hash demo_calls) (replicate 4 blank_row) = Inr mt' \<and>
      merkle_tree_path_len (mt' ! 0) = 1 \<and>
      merkle_tree_path_len (mt' ! 0) * merkle_tree_path_len_inv (mt' ! 0) = 1 \<and>
      merkle_tree_output_hash (mt' ! 0) - merkle_tree_expected_tree_root (mt' ! 0) = - 187 \<and>
      (merkle_tree_output_hash (mt' ! 0) - merkle_tree_expected_tree_root (mt' ! 0))
        * merkle_tree_diff_inv (mt' ! 0) = 1 \<and>
      merkle_tree_path_len (mt' ! 1) = 0 \<and>
      merkle_tree_path_len_inv (mt' ! 1) = 0 \<and>
      merkle_tree_output_hash (mt' ! 1) = merkle_tree_expected_tree_root (mt' ! 1) \<and>
      merkle_tree_diff_inv (mt' ! 1) = 0)"
proof -
  let ?es = "merkle_check_trace (run test_hash demo_calls)"
  let ?mt = "replicate 4 (blank_row :: rat AvmFullRow)"
  have cap: "total_rows ?es \<le> length ?mt" by (simp add: demo_total)
  have k0: "0 < length ?es" by (simp add: run_log_length demo_calls_def)
  have i00: "0 < path_len (?es ! 0)" and i01: "1 < path_len (?es ! 0)"
    by (simp_all add: demo_log path_len_alt)
  from finalize_inverse_columns[of test_hash demo_calls ?mt, OF rat_char] cap
  obtain mt' where
    nf: "finalize (run test_hash demo_calls) ?mt \<noteq> Inl Invert_zero" and
    r: "finalize (run test_hash demo_calls) ?mt = Inr mt'" and
    law: "\<And>j. j < total_rows ?es \<Longrightarrow>
       (let row = mt' ! j
        in (merkle_tree_path_len_inv row = 0) = (merkle_tree_path_len row = 0) \<and>
           (merkle_tree_path_len row \<noteq> 0 \<longrightarrow>
              merkle_tree_path_len row * merkle_tree_path_len_inv row = 1) \<and>
           (merkle_tree_diff_inv row = 0)
             = (merkle_tree_output_hash row = merkle_tree_expected_tree_root row) \<and>
           (merkle_tree_output_hash row \<noteq> merkle_tree_expected_tree_root row \<longrightarrow>
              (merkle_tree_output_hash row - merkle_tree_expected_tree_root row)
                * merkle_tree_diff_inv row = 1))"
    by blast
  have eq: "mt' = write_entries ?es 0 ?mt"
    using r finalize_ok[of test_hash demo_calls ?mt, OF rat_char cap] by simp
  have row0: "mt' ! 0 = level_row (?es ! 0) 0 blank_row"
    using nth_finalized[OF k0 i00 cap] by (simp add: eq demo_offsets)
  have row1: "mt' ! 1 = level_row (?es ! 0) 1 blank_row"
    using nth_finalized[OF k0 i01 cap] by (simp add: eq demo_offsets)
  have v0: "merkle_tree_path_len (mt' ! 0) = 1"
    "merkle_tree_output_hash (mt' ! 0) - merkle_tree_expected_tree_root (mt' ! 0) = - 187"
    unfolding row0 by (simp_all add: demo_log level_row_def Let_def path_len_alt)
  have v1: "merkle_tree_path_len (mt' ! 1) = 0"
    "merkle_tree_output_hash (mt' ! 1) = merkle_tree_expected_tree_root (mt' ! 1)"
    unfolding row1 by (simp_all add: demo_log level_row_def Let_def path_len_alt)
  have l0: "merkle_tree_path_len (mt' ! 0) * merkle_tree_path_len_inv (mt' ! 0) = 1"
    "(merkle_tree_output_hash (mt' ! 0) - merkle_tree_expected_tree_root (mt' ! 0))
        * merkle_tree_diff_inv (mt' ! 0) = 1"
    using law[of 0] v0 by (auto simp add: Let_def demo_total)
  have l1: "merkle_tree_path_len_inv (mt' ! 1) = 0" "merkle_tree_diff_inv (mt' ! 1) = 0"
    using law[of 1] v1 by (auto simp add: Let_def demo_total)
  from nf r v0 v1 l0 l1 show ?thesis by blast
qed





text \<open>
  C7. \<open>update_leaf_index\<close> returns the root that \<open>compute_root_from_path\<close> computes, for
  every input and without a fault, and appends one entry: the computed entry, whose root
  is the computed root, with \<open>is_update_op\<close> set and the membership flags unset.
\<close>

theorem update_leaf_index_outcome:
  "(let computed = fst (compute_root_from_path H c lv li pth (poseidon2_builder b));
        result = fst (update_leaf_index H c lv li pth b);
        b' = snd (update_leaf_index H c lv li pth b);
        e = last (merkle_check_trace b')
    in result = root computed \<and>
       merkle_check_trace b' = merkle_check_trace b @ [e] \<and>
       root e = root computed \<and>
       is_update_op e \<and> \<not> is_membership_op e \<and> \<not> is_member e \<and>
       e = computed\<lparr>is_update_op := True\<rparr>)"
  by (simp add: Let_def update_leaf_index_log compute_root_from_path_fields)
     (simp add: update_leaf_index_def Let_def split: prod.splits)

theorem update_leaf_index_outcome_witness:
  "fst (update_leaf_index test_hash 1 5 1 [7, 9] empty_builder) = 281 \<and>
   root (last (merkle_check_trace (snd (update_leaf_index test_hash 1 5 1 [7, 9] empty_builder)))) = 281 \<and>
   is_update_op (last (merkle_check_trace (snd (update_leaf_index test_hash 1 5 1 [7, 9] empty_builder))))"
  using update_leaf_index_outcome[of test_hash 1 5 1 "[7, 9]" empty_builder]
  by (simp add: Let_def empty_builder_def demo_root)

text \<open>
  C8. For a log in which every path has fewer than \<open>2^32\<close> siblings (the data model's
  depth is at most 63), \<open>finalize\<close> faults if and only if the table has fewer rows than
  the total demand, the sum over the logged entries of \<open>len(path)\<close>, and the fault is
  then the \<open>std::out_of_range\<close> of \<open>main_trace.at\<close>; otherwise it returns a table. A table
  that is too short is therefore never returned with fewer rows written. (The field is
  one in which no natural number between 1 and \<open>2^32 - 1\<close> is zero.)
\<close>

theorem finalize_capacity:
  fixes mt :: "('f::field, 'z) AvmFullRow_scheme list"
  assumes "\<And>n. 0 < n \<Longrightarrow> n < 2 ^ 32 \<Longrightarrow> of_nat n \<noteq> (0::'f)"
    and "list_all (\<lambda>e. length (path e) < 2 ^ 32) (merkle_check_trace (run H cs))"
  shows "(\<exists>err. finalize (run H cs) mt = Inl err)
           = (length mt < sum_list (map (length \<circ> path) (merkle_check_trace (run H cs)))) \<and>
         (finalize (run H cs) mt = Inl Out_of_range)
           = (length mt < sum_list (map (length \<circ> path) (merkle_check_trace (run H cs)))) \<and>
         (\<exists>mt'. finalize (run H cs) mt = Inr mt')
           = (sum_list (map (length \<circ> path) (merkle_check_trace (run H cs))) \<le> length mt)"
proof -
  let ?es = "merkle_check_trace (run H cs)"
  have tot: "total_rows ?es = sum_list (map (length \<circ> path) ?es)"
    by (rule total_rows_short[OF assms(2)])
  show ?thesis
  proof (cases "length mt < total_rows ?es")
    case True
    from finalize_fault[OF assms(1) True] True show ?thesis unfolding tot by simp
  next
    case False
    then have "total_rows ?es \<le> length mt" by simp
    from finalize_ok[OF assms(1) this] False show ?thesis unfolding tot by simp
  qed
qed

theorem finalize_capacity_witness:
  "finalize (run test_hash demo_calls) (replicate 2 blank_row) = Inl Out_of_range \<and>
   (\<exists>mt'. finalize (run test_hash demo_calls) (replicate 3 blank_row) = Inr mt')"
proof -
  let ?es = "merkle_check_trace (run test_hash demo_calls)"
  have short: "list_all (\<lambda>e. length (path e) < 2 ^ 32) ?es" by (simp add: demo_log)
  have tot: "sum_list (map (length \<circ> path) ?es) = 3" by (simp add: demo_log)
  have a: "finalize (run test_hash demo_calls) (replicate 2 (blank_row :: rat AvmFullRow)) = Inl Out_of_range"
    using finalize_capacity[of test_hash demo_calls "replicate 2 (blank_row :: rat AvmFullRow)",
            OF rat_char short]
    by (simp add: tot)
  have b: "\<exists>mt'. finalize (run test_hash demo_calls) (replicate 3 (blank_row :: rat AvmFullRow)) = Inr mt'"
    using finalize_capacity[of test_hash demo_calls "replicate 3 (blank_row :: rat AvmFullRow)",
            OF rat_char short]
    by (simp add: tot)
  from a b show ?thesis by blast
qed

text \<open>
  C9. After any sequence of \<open>check_membership\<close> and \<open>update_leaf_index\<close> calls on paths
  of fewer than \<open>2^32\<close> siblings (the data model's depth is at most 63), the log has one
  entry per call and every entry has \<open>len(path_values) = len(path)\<close>, an empty
  \<open>path_bits\<close>, exactly one of the two operation flags set, and \<open>is_member\<close> set only on a
  membership entry. Further calls leave the entries already logged as they are: the log
  after \<open>cs @ cs'\<close> starts with the log after \<open>cs\<close>; \<open>finalize\<close> only reads the log.
\<close>

theorem run_log_invariant:
  assumes "list_all (\<lambda>e. length (path e) < 2 ^ 32) (merkle_check_trace (run H cs))"
  shows "list_all (\<lambda>e. length (path_values e) = length (path e) \<and>
                        path_bits e = [] \<and>
                        (is_membership_op e \<noteq> is_update_op e) \<and>
                        (is_member e \<longrightarrow> is_membership_op e))
           (merkle_check_trace (run H cs)) \<and>
         length (merkle_check_trace (run H cs)) = length cs \<and>
         take (length cs) (merkle_check_trace (run H (cs @ cs'))) = merkle_check_trace (run H cs)"
  using run_entry_inv[of H cs] assms
  by (auto simp add: run_log_length run_log_prefix list_all_iff entry_inv_def path_len_alt)

theorem run_log_invariant_witness:
  "length (path_values (merkle_check_trace (run test_hash demo_calls) ! 0)) = 2 \<and>
   length (path (merkle_check_trace (run test_hash demo_calls) ! 0)) = 2 \<and>
   path_bits (merkle_check_trace (run test_hash demo_calls) ! 0) = [] \<and>
   is_member (merkle_check_trace (run test_hash demo_calls) ! 0) \<and>
   is_membership_op (merkle_check_trace (run test_hash demo_calls) ! 0) \<and>
   \<not> is_update_op (merkle_check_trace (run test_hash demo_calls) ! 0) \<and>
   length (merkle_check_trace (run test_hash demo_calls)) = 2 \<and>
   take 1 (merkle_check_trace (run test_hash demo_calls))
     = merkle_check_trace (run test_hash [Check_membership 1 5 1 [7, 9] 281])"
proof -
  let ?es = "merkle_check_trace (run test_hash demo_calls)"
  let ?c = "Check_membership 1 5 1 [7, 9] (281 :: rat)"
  let ?u = "Update_leaf_index 2 4 2 [3 :: rat]"
  have m: "is_member (?es ! 0)" and p: "length (path (?es ! 0)) = 2"
    by (simp_all add: demo_log)
  have d: "demo_calls = [?c] @ [?u]" by (simp add: demo_calls_def)
  have short: "list_all (\<lambda>e. length (path e) < 2 ^ 32) (merkle_check_trace (run test_hash ([?c] @ [?u])))"
    using demo_log by (simp add: d)
  have short1: "list_all (\<lambda>e. length (path e) < 2 ^ 32) (merkle_check_trace (run test_hash [?c]))"
    by (simp add: run_def empty_builder_def check_membership_log compute_root_from_path_fields)
  from run_log_invariant[of test_hash "[?c] @ [?u]" "[]", OF short]
  have inv: "list_all (\<lambda>e. length (path_values e) = length (path e) \<and>
                 path_bits e = [] \<and>
                 (is_membership_op e \<noteq> is_update_op e) \<and>
                 (is_member e \<longrightarrow> is_membership_op e)) ?es"
    and len: "length ?es = 2"
    by (simp_all add: d)
  from run_log_invariant[of test_hash "[?c]" "[?u]", OF short1]
  have pre: "take 1 ?es = merkle_check_trace (run test_hash [?c])"
    by (simp add: d)
  have k: "0 < length ?es" by (simp add: len)
  from inv[unfolded list_all_length, rule_format, OF k] have
    "length (path_values (?es ! 0)) = length (path (?es ! 0)) \<and>
     path_bits (?es ! 0) = [] \<and>
     (is_membership_op (?es ! 0) \<noteq> is_update_op (?es ! 0)) \<and>
     (is_member (?es ! 0) \<longrightarrow> is_membership_op (?es ! 0))" .
  with m p len pre show ?thesis by auto
qed

text \<open>
  C10. For an operation recorded with an empty sibling path,
  \<open>compute_root_from_path\<close> returns the leaf value as root, with no path value and
  without calling the hash, so \<open>check_membership\<close> returns true exactly when the leaf
  value equals the supplied root; and \<open>finalize\<close> writes no row for the entry: its pass
  over the entry leaves the table and the cursor as they were, so the table that
  \<open>finalize\<close> gives for a log with the entry is the one it gives for the log without
  it, and no latch row and no selector row stands for the operation.
\<close>

theorem empty_path_operation:
  fixes mt :: "('f::field, 'z) AvmFullRow_scheme list"
  shows
  "(let computed = compute_root_from_path H c lv li [] p2;
        checked = last (merkle_check_trace (snd (check_membership H c lv li [] rt b)));
        updated = last (merkle_check_trace (snd (update_leaf_index H c lv li [] b)))
    in root (fst computed) = lv \<and> path_values (fst computed) = [] \<and> snd computed = p2 \<and>
       fst (check_membership H c lv li [] rt b) = (lv = rt) \<and>
       is_member checked = (lv = rt) \<and>
       finalize_entry checked (mt, n) = Inr (mt, n) \<and>
       finalize_entry updated (mt, n) = Inr (mt, n) \<and>
       finalize (b'\<lparr>merkle_check_trace := es1 @ checked # es2\<rparr>) mt
         = finalize (b'\<lparr>merkle_check_trace := es1 @ es2\<rparr>) mt \<and>
       finalize (b'\<lparr>merkle_check_trace := es1 @ updated # es2\<rparr>) mt
         = finalize (b'\<lparr>merkle_check_trace := es1 @ es2\<rparr>) mt)"
proof -
  let ?checked = "last (merkle_check_trace (snd (check_membership H c lv li [] rt b)))"
  let ?updated = "last (merkle_check_trace (snd (update_leaf_index H c lv li [] b)))"
  have comp: "compute_root_from_path H c lv li [] p =
                (\<lparr>clk = c, leaf_value = lv, leaf_index = li, path = [], path_bits = [],
                  path_values = [], root = lv,
                  is_member = False, is_membership_op = False, is_update_op = False\<rparr>, p)" for p
    by (simp add: compute_root_from_path_spec)
  have pc: "path ?checked = []" and mc: "is_member ?checked = (lv = rt)"
    by (simp_all add: check_membership_log comp)
  have pu: "path ?updated = []"
    by (simp add: update_leaf_index_log comp)
  have res: "fst (check_membership H c lv li [] rt b) = (lv = rt)"
    by (simp add: check_membership_def Let_def comp)
  have skip: "fold_res finalize_entry (es1 @ e # es2) s = fold_res finalize_entry (es1 @ es2) s"
    if "path e = []" for e :: "'f MerkleEntry" and s :: "('f, 'z) AvmFullRow_scheme list \<times> nat"
    using that by (simp add: fold_res_append finalize_entry_empty' split: sum.splits)
  show ?thesis
    by (simp add: Let_def comp res mc finalize_entry_empty[OF pc] finalize_entry_empty[OF pu]
          finalize_def finalize_rows_def skip[OF pc] skip[OF pu])
qed

theorem empty_path_operation_witness:
  "fst (check_membership test_hash 3 8 5 [] 8 empty_builder) \<and>
   \<not> fst (check_membership test_hash 3 8 5 [] 9 empty_builder) \<and>
   finalize_entry (last (merkle_check_trace (snd (check_membership test_hash 3 8 5 [] 8 empty_builder))))
     ([blank_row], 0) = Inr ([blank_row], 0)"
  using empty_path_operation[of test_hash 3 8 5 "[]" 8 empty_builder "[blank_row]" 0]
        empty_path_operation[of test_hash 3 8 5 "[]" 9 empty_builder "[blank_row]" 0]
  by (simp add: Let_def)

end
